theory Spec2Isabelle
  imports Main "HOL-Library.Word"
begin

section \<open>The mock cluster of pkg/kfake/cluster.go\<close>

text \<open>
  The development embeds the control plane of the mock cluster: the registry of
  control functions (\<open>Control\<close>, \<open>ControlKey\<close>, \<open>KeepControl\<close>, \<open>tryControl\<close>,
  \<open>callControl\<close>), one iteration of the event loop \<open>run\<close>, and the administrative
  operations \<open>MoveTopicPartition\<close>, \<open>AddNode\<close>, \<open>RemoveNode\<close> and
  \<open>ShufflePartitionLeaders\<close>.

  Go's \<open>int16\<close> and \<open>int32\<close> are words; \<open>+ 1\<close> on them wraps as Go's \<open>++\<close> does, and
  the signed comparisons of the source are \<open><s\<close> and \<open>\<le>s\<close>. Go's \<open>int\<close> (ports, the
  broker count) only takes part in comparisons and single steps and is \<open>int\<close>.
\<close>

type_synonym int16 = "16 word"
type_synonym int32 = "32 word"

subsection \<open>Requests, responses, errors\<close>

text \<open>
  \<open>kmsg.Request\<close> and \<open>kmsg.Response\<close> are interfaces of the wire codec. Of a request
  the cluster only reads \<open>Key()\<close>; the rest is an opaque payload. A nil response and a
  nil error are \<open>None\<close>.
\<close>

datatype request = Request (Key: int16) (payload: nat)

datatype response = Response nat

datatype error =
    NodeNotFound int32              \<comment> \<open>\<open>node %d not found\<close>\<close>
  | TopicPartitionNotFound          \<comment> \<open>\<open>topic/partition not found\<close>\<close>
  | NodeAlreadyExists int32         \<comment> \<open>\<open>node %d already exists\<close>\<close>
  | CannotRemoveAllBrokers          \<comment> \<open>\<open>cannot remove all brokers\<close>\<close>
  | UnhandledKey int16              \<comment> \<open>\<open>unahndled key %v\<close>\<close>
  | ListenError string              \<comment> \<open>an error of \<open>net.Listen\<close>\<close>
  | PanicIndexOutOfRange            \<comment> \<open>a run-time panic of an out-of-range index\<close>
  | PanicNilDereference             \<comment> \<open>a run-time panic of a nil pointer dereference\<close>
  | OtherError string               \<comment> \<open>an error made by a control function or a handler\<close>

record clientReq =
  cc :: nat                         \<comment> \<open>the connection (a pointer)\<close>
  kreq :: request
  at :: nat
  corr :: int32

record clientResp =
  kresp :: "response option"
  rcorr :: int32
  err :: "error option"

subsection \<open>Control functions\<close>

text \<open>
  A \<open>controlFn\<close> is a Go closure \<open>func(kmsg.Request) (kmsg.Response, error, bool)\<close>.
  Its identity is \<open>fn_id\<close>. What it can do to the cluster while it runs is call
  \<open>Control\<close>, \<open>ControlKey\<close> and \<open>KeepControl\<close> (the registry mutex is released
  during the call); the administrative operations would block for ever, since they wait
  for the loop that is running the closure. So one invocation is a function \<open>body\<close>
  from the variables the closure captured (\<open>'e\<close>) and the request to the new captured
  variables, the registry calls it made in order, and its three results.
\<close>

datatype 'e controlFn =
    ControlFn (fn_id: nat)
      (body: "'e \<Rightarrow> request \<Rightarrow> 'e \<times> 'e action list \<times> response option \<times> error option \<times> bool")
and 'e action =
    CallControl "'e controlFn"
  | CallControlKey int16 "'e controlFn"
  | CallKeepControl

type_synonym tried = "response option \<times> error option \<times> bool"

abbreviation handled :: "tried \<Rightarrow> bool" where
  "handled r \<equiv> snd (snd r)"

subsection \<open>Brokers, partitions, the cluster\<close>

text \<open>
  Brokers are heap objects (\<open>[]*broker\<close>): \<open>brokers\<close> is the heap, \<open>nalloc\<close> the next
  free address, \<open>bs\<close> the list of pointers. The listener of a broker is owned by it
  alone and is kept in the broker: whether it is open, and its port.
\<close>

record broker =
  ln_open :: bool
  ln_port :: int
  node :: int32
  bsIdx :: nat

text \<open>
  Modelled from the spec: the declarations of \<open>partData\<close>, of the topic/partition store
  \<open>tps\<close> with \<open>getp\<close> and \<open>each\<close>, and \<open>noLeader\<close> are missing from the source
  given. A partition has a leader, a broker pointer or the no-leader sentinel (\<open>None\<close>),
  and an epoch counter; the store maps (topic, partition) to the partition's data.
\<close>

record partData =
  leader :: "nat option"
  epoch :: int

text \<open>
  Modelled from the spec: the declaration of \<open>watchFetch\<close> is missing from the source
  given. A deferred fetch is a heap object with the parked request and the flag
  \<open>cleaned\<close>.
\<close>

record watchFetch =
  cleaned :: bool
  creq :: clientReq

record 'e Cluster =
  nbrokers :: int                                   \<comment> \<open>\<open>cfg.nbrokers\<close>\<close>
  brokers :: "nat \<Rightarrow> broker"
  nalloc :: nat
  bs :: "nat list"
  control :: "int16 \<rightharpoonup> 'e controlFn list"
  keepCurrentControl :: bool
  tps :: "string \<times> int32 \<rightharpoonup> partData"            \<comment> \<open>\<open>data.tps\<close>\<close>
  watch :: "nat \<Rightarrow> watchFetch"
  env :: 'e                                         \<comment> \<open>what the control closures captured\<close>

subsection \<open>The control registry\<close>

text \<open>Reading a key that is not in a Go map gives the nil slice.\<close>

definition fns :: "(int16 \<rightharpoonup> 'e controlFn list) \<Rightarrow> int16 \<Rightarrow> 'e controlFn list" where
  "fns m key = (case m key of None \<Rightarrow> [] | Some l \<Rightarrow> l)"

definition Control :: "'e controlFn \<Rightarrow> 'e Cluster \<Rightarrow> 'e Cluster" where
  "Control fn c = c\<lparr>control := (control c)(- 1 \<mapsto> fns (control c) (- 1) @ [fn])\<rparr>"

definition ControlKey :: "int16 \<Rightarrow> 'e controlFn \<Rightarrow> 'e Cluster \<Rightarrow> 'e Cluster" where
  "ControlKey key fn c = c\<lparr>control := (control c)(key \<mapsto> fns (control c) key @ [fn])\<rparr>"

definition KeepControl :: "'e Cluster \<Rightarrow> 'e Cluster" where
  "KeepControl c = c\<lparr>keepCurrentControl := True\<rparr>"

fun perform :: "'e action \<Rightarrow> 'e Cluster \<Rightarrow> 'e Cluster" where
  "perform (CallControl fn) c = Control fn c"
| "perform (CallControlKey key fn) c = ControlKey key fn c"
| "perform CallKeepControl c = KeepControl c"

text \<open>
  \<open>callControl\<close>: clear the flag, run the closure with the mutex released, and in the
  deferred function, if \<open>handled && c.keepCurrentControl.Swap(false)\<close>, append the
  closure to the list of \<open>key\<close>. The swap is only evaluated when \<open>handled\<close> holds.
\<close>

definition callControl ::
  "int16 \<Rightarrow> request \<Rightarrow> 'e controlFn \<Rightarrow> 'e Cluster \<Rightarrow> tried \<times> 'e Cluster" where
  "callControl key req fn c =
     (let c1 = c\<lparr>keepCurrentControl := False\<rparr>;
          (e, acts, r) = body fn (env c1) req;
          c2 = fold perform acts (c1\<lparr>env := e\<rparr>)
      in if handled r
         then (let keep = keepCurrentControl c2;
                   c3 = c2\<lparr>keepCurrentControl := False\<rparr>
               in (r, if keep then c3\<lparr>control := (control c3)(key \<mapsto> fns (control c3) key @ [fn])\<rparr>
                      else c3))
         else (r, c2))"

text \<open>
  One \<open>for i, fn := range keyFns\<close> loop of \<open>tryControl\<close>, from index \<open>i\<close> on, with
  \<open>rest = drop i keyFns\<close>. \<open>keyFns\<close> is the slice read before the loop. The calls made
  while the loop runs append to the map's slice, that is at indices from
  \<open>length keyFns\<close> on of the same array or in a new array, so the elements the loop and
  \<open>append(keyFns[:i], keyFns[i+1:]...)\<close> read are those of \<open>keyFns\<close>. The named
  results keep the values of the last call. The third component is the record of the
  calls made, with the result \<open>handled\<close> of each: it is not in the source and is only
  there to state which closures were invoked and in which order.
\<close>

fun rangeFns ::
  "int16 \<Rightarrow> request \<Rightarrow> 'e controlFn list \<Rightarrow> 'e controlFn list \<Rightarrow> nat \<Rightarrow> tried \<Rightarrow> 'e Cluster
   \<Rightarrow> tried \<times> 'e Cluster \<times> ('e controlFn \<times> bool) list" where
  "rangeFns key req keyFns [] i r c = (r, c, [])"
| "rangeFns key req keyFns (fn # rest) i r c =
     (let (r', c') = callControl key req fn c
      in if handled r'
         then (r', c'\<lparr>control := (control c')(key \<mapsto> take i keyFns @ drop (i + 1) keyFns)\<rparr>,
               [(fn, True)])
         else (let (r'', c'', calls) = rangeFns key req keyFns rest (i + 1) r' c'
               in (r'', c'', (fn, False) # calls)))"

definition tryControl ::
  "request \<Rightarrow> 'e Cluster \<Rightarrow> tried \<times> 'e Cluster \<times> ('e controlFn \<times> bool) list" where
  "tryControl req c =
     (if dom (control c) = {} then ((None, None, False), c, [])
      else (let keyFns = fns (control c) (Key req);
                (r, c1, calls1) = rangeFns (Key req) req keyFns keyFns 0 (None, None, False) c
            in if handled r then (r, c1, calls1)
               else (let anyFns = fns (control c1) (- 1);
                         (r', c2, calls2) = rangeFns (- 1) req anyFns anyFns 0 r c1
                     in (r', c2, calls1 @ calls2))))"

text \<open>
  The calls of \<open>callControl\<close> on a list of functions, each with the key of the list
  it was taken from, one after the other whatever they report: the results in order
  and the cluster after the last call. It states what a list of calls did.
\<close>

fun callAll ::
  "request \<Rightarrow> (int16 \<times> 'e controlFn) list \<Rightarrow> 'e Cluster \<Rightarrow> tried list \<times> 'e Cluster" where
  "callAll req [] c = ([], c)"
| "callAll req (kf # rest) c =
     (let (r, c1) = callControl (fst kf) req (snd kf) c;
          (rs, c2) = callAll req rest c1
      in (r # rs, c2))"

text \<open>
  The functions in a record of the calls of \<open>tryControl\<close>, each with the key that
  \<open>callControl\<close> was given for it: the loop over the list of the request's key makes
  at most as many calls as the list is long, with the request's key, and the calls
  after these are those of the loop over the wildcard list, with the key \<open>-1\<close>.
\<close>

definition chain ::
  "request \<Rightarrow> 'e Cluster \<Rightarrow> ('e controlFn \<times> bool) list \<Rightarrow> (int16 \<times> 'e controlFn) list" where
  "chain req c calls =
     (let nk = length (fns (control c) (Key req))
      in map (Pair (Key req)) (take nk (map fst calls)) @
         map (Pair (- 1)) (drop nk (map fst calls)))"

subsection \<open>Administrative operations\<close>

text \<open>
  An administrative operation is a closure sent to the loop through \<open>admin\<close>, which
  returns when the loop has run it. Each is given here as the function of the cluster
  state its closure computes, together with what the operation returns.

  \<open>rand.Intn(len(c.bs))\<close> is some index below the length: \<open>rnd\<close> gives a number for
  each partition and the model reduces it modulo the length.
\<close>

definition shufflePartitionsLocked :: "(string \<times> int32 \<Rightarrow> nat) \<Rightarrow> 'e Cluster \<Rightarrow> 'e Cluster" where
  "shufflePartitionsLocked rnd c =
     c\<lparr>tps := (\<lambda>tp. case tps c tp of
                    None \<Rightarrow> None
                  | Some p \<Rightarrow>
                      Some (p\<lparr>leader := (if length (bs c) = 0 then None
                                         else Some (bs c ! (rnd tp mod length (bs c)))),
                              epoch := epoch p + 1\<rparr>))\<rparr>"

definition ShufflePartitionLeaders :: "(string \<times> int32 \<Rightarrow> nat) \<Rightarrow> 'e Cluster \<Rightarrow> 'e Cluster" where
  "ShufflePartitionLeaders rnd c = shufflePartitionsLocked rnd c"

definition MoveTopicPartition ::
  "string \<Rightarrow> int32 \<Rightarrow> int32 \<Rightarrow> 'e Cluster \<Rightarrow> error option \<times> 'e Cluster" where
  "MoveTopicPartition topic part nodeID c =
     (case find (\<lambda>b. node (brokers c b) = nodeID) (bs c) of
        None \<Rightarrow> (Some (NodeNotFound nodeID), c)
      | Some br \<Rightarrow>
          (case tps c (topic, part) of
             None \<Rightarrow> (Some TopicPartitionNotFound, c)
           | Some pd \<Rightarrow>
               (None, c\<lparr>tps := (tps c)((topic, part) \<mapsto> pd\<lparr>leader := Some br\<rparr>)\<rparr>)))"

text \<open>The scan of \<open>AddNode\<close> for the largest node ID, a signed comparison of \<open>int32\<close>.\<close>

fun scanMax :: "(nat \<Rightarrow> broker) \<Rightarrow> int32 \<Rightarrow> nat list \<Rightarrow> int32" where
  "scanMax h nodeID [] = nodeID"
| "scanMax h nodeID (b # rest) =
     scanMax h (if nodeID <s node (h b) then node (h b) else nodeID) rest"

text \<open>
  \<open>newListener\<close> calls \<open>net.Listen\<close> on \<open>127.0.0.1:port\<close>; what the operating
  system answers for a port is the parameter \<open>newListener\<close>: an error, or a listener.
  A listener is bound to the port asked for, or, when port 0 was asked for, to a port
  the system chooses, which is positive: the answer \<open>Inr n\<close> stands for the chosen
  port \<open>1 + n\<close>. The source reads the bound port back from the listener's address.
  The result of \<open>AddNode\<close> is the triple \<open>(nodeID, port, err)\<close> it returns.
\<close>

definition bound_port :: "int \<Rightarrow> nat \<Rightarrow> int" where
  "bound_port port n = (if port = 0 then 1 + int n else port)"

definition AddNode ::
  "(int \<Rightarrow> error + nat) \<Rightarrow> (string \<times> int32 \<Rightarrow> nat) \<Rightarrow> int32 \<Rightarrow> int \<Rightarrow> 'e Cluster
   \<Rightarrow> (int32 \<times> int \<times> error option) \<times> 'e Cluster" where
  "AddNode newListener rnd nodeID port c =
     (if 0 \<le>s nodeID \<and> (\<exists>b \<in> set (bs c). node (brokers c b) = nodeID)
      then ((nodeID, port, Some (NodeAlreadyExists nodeID)), c)
      else (let nodeID' =
                  (if 0 \<le>s nodeID then nodeID
                   else if length (bs c) > 0
                        then scanMax (brokers c) (node (brokers c (hd (bs c)))) (tl (bs c)) + 1
                        else 0);
                port' = (if port < 0 then 0 else port)
            in case newListener port' of
                 Inl e \<Rightarrow> ((nodeID', port', Some e), c)
               | Inr n \<Rightarrow>
                   (let bound = bound_port port' n;
                        b = nalloc c;
                        c' = c\<lparr>brokers := (brokers c)
                                  (b := \<lparr>ln_open = True, ln_port = bound, node = nodeID',
                                         bsIdx = length (bs c)\<rparr>),
                               nalloc := Suc b,
                               bs := bs c @ [b],
                               nbrokers := nbrokers c + 1\<rparr>
                    in ((nodeID', bound, None), shufflePartitionsLocked rnd c'))))"

text \<open>
  The loop of \<open>RemoveNode\<close> from index \<open>i\<close> on, with \<open>rest = drop i (bs c)\<close>: at the
  first broker with the node ID, either the error for the last broker, or close the
  listener, \<open>c.bs[i] = c.bs[len(c.bs)-1]\<close>, \<open>c.bs[i].bsIdx = i\<close>, cut the last
  element off and shuffle.
\<close>

fun removeLoop ::
  "(string \<times> int32 \<Rightarrow> nat) \<Rightarrow> int32 \<Rightarrow> nat list \<Rightarrow> nat \<Rightarrow> 'e Cluster \<Rightarrow> error option \<times> 'e Cluster" where
  "removeLoop rnd nodeID [] i c = (Some (NodeNotFound nodeID), c)"
| "removeLoop rnd nodeID (b # rest) i c =
     (if node (brokers c b) = nodeID
      then (if length (bs c) = 1 then (Some CannotRemoveAllBrokers, c)
            else (let h1 = (brokers c)(b := (brokers c b)\<lparr>ln_open := False\<rparr>);
                      moved = last (bs c);
                      bs1 = (bs c)[i := moved];
                      h2 = h1(moved := (h1 moved)\<lparr>bsIdx := i\<rparr>);
                      c' = c\<lparr>brokers := h2, nbrokers := nbrokers c - 1, bs := butlast bs1\<rparr>
                  in (None, shufflePartitionsLocked rnd c')))
      else removeLoop rnd nodeID rest (i + 1) c)"

definition RemoveNode ::
  "(string \<times> int32 \<Rightarrow> nat) \<Rightarrow> int32 \<Rightarrow> 'e Cluster \<Rightarrow> error option \<times> 'e Cluster" where
  "RemoveNode rnd nodeID c = removeLoop rnd nodeID (bs c) 0 c"

subsection \<open>Construction\<close>

text \<open>
  \<open>NewCluster\<close> after the options are applied: \<open>cfg_nbrokers\<close> brokers (3 by default),
  or one for each port of \<open>cfg_ports\<close>. The loop makes broker \<open>i\<close> with node ID
  \<open>int32(i)\<close>. When a listener fails, \<open>return nil, err\<close> sets the named result
  \<open>c\<close> to nil and the deferred function, seeing the error, calls \<open>c.Close()\<close> on
  it: the construction ends in a panic. \<open>c.bs[len(c.bs)-1]\<close> panics when no broker
  was made. The field \<open>controller\<close> that
  it sets is read by none of the functions embedded here and is left out.
\<close>

record cfg =
  cfg_nbrokers :: int
  cfg_ports :: "int list"

definition default_cfg :: cfg where
  "default_cfg = \<lparr>cfg_nbrokers = 3, cfg_ports = []\<rparr>"

definition no_broker :: broker where
  "no_broker = \<lparr>ln_open = False, ln_port = 0, node = 0, bsIdx = 0\<rparr>"

definition no_watch :: watchFetch where
  "no_watch = \<lparr>cleaned = False, creq = \<lparr>cc = 0, kreq = Request 0 0, at = 0, corr = 0\<rparr>\<rparr>"

fun newBrokers ::
  "(nat \<Rightarrow> int \<Rightarrow> error + nat) \<Rightarrow> int list \<Rightarrow> nat \<Rightarrow> nat \<Rightarrow> 'e Cluster \<Rightarrow> error + 'e Cluster" where
  "newBrokers newListener ports 0 i c = Inr c"
| "newBrokers newListener ports (Suc n) i c =
     (let port = (if length ports > 0 then ports ! i else 0)
      in case newListener i port of
           Inl e \<Rightarrow> Inl e
         | Inr k \<Rightarrow>
             (let bound = bound_port port k;
                  b = nalloc c
              in newBrokers newListener ports n (Suc i)
                   (c\<lparr>brokers := (brokers c)
                         (b := \<lparr>ln_open = True, ln_port = bound, node = of_nat i,
                                bsIdx = length (bs c)\<rparr>),
                      nalloc := Suc b,
                      bs := bs c @ [b]\<rparr>)))"

definition NewCluster :: "(nat \<Rightarrow> int \<Rightarrow> error + nat) \<Rightarrow> cfg \<Rightarrow> 'e \<Rightarrow> error + 'e Cluster" where
  "NewCluster newListener cf e =
     (let n = (if length (cfg_ports cf) > 0 then int (length (cfg_ports cf)) else cfg_nbrokers cf);
          c = \<lparr>nbrokers = n, brokers = (\<lambda>_. no_broker), nalloc = 0, bs = [],
               control = Map.empty, keepCurrentControl = False, tps = Map.empty,
               watch = (\<lambda>_. no_watch), env = e\<rparr>
      in case newBrokers newListener (cfg_ports cf) (nat n) 0 c of
           Inl e \<Rightarrow> Inl PanicNilDereference
         | Inr c' \<Rightarrow> if bs c' = [] then Inl PanicIndexOutOfRange else Inr c')"

subsection \<open>The event loop\<close>

text \<open>
  One iteration of \<open>run\<close>. The item is what the \<open>select\<close> received; \<open>die\<close> says
  whether the second \<open>select\<close>, the delivery, takes the shutdown signal instead of the
  send. The response queues belong to the connections, not to the cluster.

  The handlers are not in the source given: \<open>handlers\<close> is the table of the \<open>switch\<close>,
  from the request key to the handler, and \<open>None\<close> is its \<open>default\<close> branch, which
  sets \<open>err\<close> only. A handler gets the cluster, the request and the deferred fetch (or
  nil) and returns a response, an error and the cluster as it left it.
\<close>

record 'e loop =
  cluster :: "'e Cluster"
  respCh :: "nat \<Rightarrow> clientResp list"

datatype 'e item =
    ReqItem clientReq
  | WatchItem nat
  | DieItem
  | AdminItem "'e Cluster \<Rightarrow> 'e Cluster"

datatype 'e step = Continue "'e loop" | Return "'e loop"

type_synonym 'e handler =
  "'e Cluster \<Rightarrow> clientReq \<Rightarrow> nat option \<Rightarrow> (response option \<times> error option) \<times> 'e Cluster"

text \<open>
  Modelled from the spec: \<open>watchFetch.cleanup\<close> is missing from the source given; it
  marks the entry cleaned.
\<close>

definition cleanup :: "nat \<Rightarrow> 'e Cluster \<Rightarrow> 'e Cluster" where
  "cleanup w c = c\<lparr>watch := (watch c)(w := (watch c w)\<lparr>cleaned := True\<rparr>)\<rparr>"

text \<open>
  The part of the iteration from \<open>kreq := creq.kreq\<close> to the label \<open>afterControl\<close>:
  the control functions, and when none handled the request, the handler of its key.
  The result is \<open>(kresp, err)\<close> and the cluster.
\<close>

definition dispatch ::
  "(int16 \<Rightarrow> 'e handler option) \<Rightarrow> clientReq \<Rightarrow> nat option \<Rightarrow> 'e Cluster
   \<Rightarrow> (response option \<times> error option) \<times> 'e Cluster" where
  "dispatch handlers rq w c =
     (let (r, c1, calls) = tryControl (kreq rq) c
      in if handled r then ((fst r, fst (snd r)), c1)
         else (case handlers (Key (kreq rq)) of
                 Some h \<Rightarrow> h c1 rq w
               | None \<Rightarrow> ((fst r, Some (UnhandledKey (Key (kreq rq)))), c1)))"

text \<open>The iteration from \<open>kreq := creq.kreq\<close> to its end.\<close>

definition serve ::
  "(int16 \<Rightarrow> 'e handler option) \<Rightarrow> bool \<Rightarrow> clientReq \<Rightarrow> nat option \<Rightarrow> 'e loop \<Rightarrow> 'e step" where
  "serve handlers die rq w s =
     (let (re, c2) = dispatch handlers rq w (cluster s)
      in if fst re = None \<and> snd re = None then Continue (s\<lparr>cluster := c2\<rparr>)
         else if die then Return (s\<lparr>cluster := c2\<rparr>)
         else Continue (s\<lparr>cluster := c2,
                          respCh := (respCh s)
                            (cc rq := respCh s (cc rq) @
                               [\<lparr>kresp = fst re, rcorr = corr rq, err = snd re\<rparr>])\<rparr>))"

definition run_iter ::
  "(int16 \<Rightarrow> 'e handler option) \<Rightarrow> bool \<Rightarrow> 'e item \<Rightarrow> 'e loop \<Rightarrow> 'e step" where
  "run_iter handlers die it s =
     (case it of
        ReqItem rq \<Rightarrow> serve handlers die rq None s
      | WatchItem w \<Rightarrow>
          if cleaned (watch (cluster s) w) then Continue s
          else (let c' = cleanup w (cluster s)
                in serve handlers die (creq (watch c' w)) (Some w) (s\<lparr>cluster := c'\<rparr>))
      | DieItem \<Rightarrow> Return s
      | AdminItem fn \<Rightarrow> Continue (s\<lparr>cluster := fn (cluster s)\<rparr>))"

text \<open>The loop state after an iteration, whether the loop goes on or returns.\<close>

definition state_of :: "'e step \<Rightarrow> 'e loop" where
  "state_of st = (case st of Continue s \<Rightarrow> s | Return s \<Rightarrow> s)"

text \<open>
  The loop on the items it receives, in the order it receives them, until it returns.
  The second component lists the deferred fetches whose request was served: it is not
  in the source and is only there to count them.
\<close>

definition served :: "'e item \<Rightarrow> 'e loop \<Rightarrow> nat list" where
  "served it s =
     (case it of WatchItem w \<Rightarrow> if cleaned (watch (cluster s) w) then [] else [w] | _ \<Rightarrow> [])"

fun run ::
  "(int16 \<Rightarrow> 'e handler option) \<Rightarrow> ('e item \<times> bool) list \<Rightarrow> 'e loop \<Rightarrow> 'e loop \<times> nat list" where
  "run handlers [] s = (s, [])"
| "run handlers ((it, die) # rest) s =
     (case run_iter handlers die it s of
        Return s' \<Rightarrow> (s', served it s)
      | Continue s' \<Rightarrow> (let (s'', ws) = run handlers rest s' in (s'', served it s @ ws)))"

subsection \<open>The state after a removal\<close>

text \<open>
  What the loop of \<open>RemoveNode\<close> does at the index \<open>i\<close> of the broker it removes, as
  a function of the index.
\<close>

definition removed :: "(string \<times> int32 \<Rightarrow> nat) \<Rightarrow> nat \<Rightarrow> 'e Cluster \<Rightarrow> 'e Cluster" where
  "removed rnd i c =
     (let b = bs c ! i;
          h1 = (brokers c)(b := (brokers c b)\<lparr>ln_open := False\<rparr>);
          moved = last (bs c);
          bs1 = (bs c)[i := moved];
          h2 = h1(moved := (h1 moved)\<lparr>bsIdx := i\<rparr>);
          c' = c\<lparr>brokers := h2, nbrokers := nbrokers c - 1, bs := butlast bs1\<rparr>
      in shufflePartitionsLocked rnd c')"

subsection \<open>Example states\<close>

text \<open>
  Listeners that always bind: for port 0, \<open>listen_ok\<close> to port 40000 and
  \<open>listen_nth\<close> for broker \<open>i\<close> to port \<open>9092 + i\<close>.
  \<open>fresh3\<close> is the cluster \<open>NewCluster\<close> makes with it from the default
  configuration, and \<open>demo\<close> the same cluster with two partitions of a topic.
\<close>

definition listen_ok :: "int \<Rightarrow> error + nat" where
  "listen_ok port = Inr 39999"

definition listen_nth :: "nat \<Rightarrow> int \<Rightarrow> error + nat" where
  "listen_nth i port = Inr (9091 + i)"

definition fresh3 :: "unit Cluster" where
  "fresh3 =
     \<lparr>nbrokers = 3,
      brokers = (\<lambda>_. no_broker)
        (0 := \<lparr>ln_open = True, ln_port = 9092, node = 0, bsIdx = 0\<rparr>,
         1 := \<lparr>ln_open = True, ln_port = 9093, node = 1, bsIdx = 1\<rparr>,
         2 := \<lparr>ln_open = True, ln_port = 9094, node = 2, bsIdx = 2\<rparr>),
      nalloc = 3, bs = [0, 1, 2],
      control = Map.empty, keepCurrentControl = False, tps = Map.empty,
      watch = (\<lambda>_. no_watch), env = ()\<rparr>"

definition demo :: "unit Cluster" where
  "demo = fresh3\<lparr>tps := [(''t'', 0) \<mapsto> \<lparr>leader = Some 0, epoch = 0\<rparr>,
                         (''t'', 1) \<mapsto> \<lparr>leader = Some 1, epoch = 4\<rparr>]\<rparr>"

text \<open>The random choice that always draws 0.\<close>

definition pick_first :: "string \<times> int32 \<Rightarrow> nat" where
  "pick_first tp = 0"

text \<open>A cluster with a single broker.\<close>

definition solo :: "unit Cluster" where
  "solo = demo\<lparr>nbrokers := 1, bs := [0]\<rparr>"

text \<open>
  The fresh cluster after \<open>AddNode(2147483647, 0)\<close>, and after one and two further
  calls \<open>AddNode(-1, 0)\<close>.
\<close>

definition maxed :: "unit Cluster" where
  "maxed = snd (AddNode listen_ok pick_first 2147483647 0 fresh3)"

definition wrapped :: "unit Cluster" where
  "wrapped = snd (AddNode listen_ok pick_first (- 1) 0 maxed)"

definition wrapped2 :: "unit Cluster" where
  "wrapped2 = snd (AddNode listen_ok pick_first (- 1) 0 wrapped)"

subsection \<open>Live node IDs\<close>

text \<open>
  The node IDs of the live brokers, in the order of the broker list, and the property
  of the heap that every live broker is an allocated object (so that the object
  \<open>AddNode\<close> allocates is a new one).
\<close>

definition nodes :: "'e Cluster \<Rightarrow> int32 list" where
  "nodes c = map (\<lambda>b. node (brokers c b)) (bs c)"

definition allocated :: "'e Cluster \<Rightarrow> bool" where
  "allocated c = (\<forall>b \<in> set (bs c). b < nalloc c)"

subsection \<open>Example control functions and handlers\<close>

text \<open>
  Control functions: \<open>keeper\<close> calls \<open>KeepControl\<close> and handles the request with a
  response; \<open>once\<close> handles it with a response; \<open>pass\<close> does not handle it;
  \<open>silent\<close> handles it with a nil response and a nil error; \<open>adder\<close> registers
  \<open>pass\<close> for key 3 and handles the request. \<open>metaReq\<close> is a metadata request
  (key 3) on connection 7 with correlation number 11.
\<close>

definition keeper :: "unit controlFn" where
  "keeper = ControlFn 1 (\<lambda>e rq. (e, [CallKeepControl], Some (Response 7), None, True))"

definition once :: "unit controlFn" where
  "once = ControlFn 2 (\<lambda>e rq. (e, [], Some (Response 8), None, True))"

definition pass :: "unit controlFn" where
  "pass = ControlFn 3 (\<lambda>e rq. (e, [], None, None, False))"

definition silent :: "unit controlFn" where
  "silent = ControlFn 4 (\<lambda>e rq. (e, [], None, None, True))"

definition adder :: "unit controlFn" where
  "adder = ControlFn 5 (\<lambda>e rq. (e, [CallControlKey 3 pass], Some (Response 9), None, True))"

definition metaReq :: clientReq where
  "metaReq = \<lparr>cc = 7, kreq = Request 3 0, at = 0, corr = 11\<rparr>"

text \<open>
  A table with one handler, for key 1 (fetch), that answers with an empty response, and
  a loop state with the deferred fetch 5 parked.
\<close>

definition fetch_only :: "int16 \<Rightarrow> unit handler option" where
  "fetch_only k = (if k = 1 then Some (\<lambda>c rq w. ((Some (Response 0), None), c)) else None)"

definition parked :: "unit loop" where
  "parked =
     \<lparr>cluster = fresh3\<lparr>watch := (\<lambda>_. no_watch)
        (5 := \<lparr>cleaned = False, creq = \<lparr>cc = 7, kreq = Request 1 0, at = 0, corr = 12\<rparr>\<rparr>)\<rparr>,
      respCh = (\<lambda>_. [])\<rparr>"


text \<open>
  A registry with \<open>pass\<close> and \<open>once\<close>, in this order, for key 3 and \<open>keeper\<close> for
  every key.
\<close>

definition three_fns :: "unit Cluster" where
  "three_fns = Control keeper (ControlKey 3 once (ControlKey 3 pass fresh3))"

text \<open>A registry with \<open>pass\<close> for key 3 and \<open>keeper\<close> for every key.\<close>

definition wild :: "unit Cluster" where
  "wild = Control keeper (ControlKey 3 pass fresh3)"

text \<open>A table without handlers, and a loop state with empty response queues.\<close>

definition no_handlers :: "int16 \<Rightarrow> unit handler option" where
  "no_handlers k = None"

definition idle :: "unit loop" where
  "idle = \<lparr>cluster = fresh3, respCh = (\<lambda>_. [])\<rparr>"




subsection \<open>Functions that keep the flag \<open>cleaned\<close>\<close>

text \<open>
  What the deferred-fetch claim asks of the code that is not in the source given: a
  handler or an administrative closure never clears the flag \<open>cleaned\<close> of a
  deferred fetch.
\<close>

definition keeps_cleaned :: "('e Cluster \<Rightarrow> 'e Cluster) \<Rightarrow> bool" where
  "keeps_cleaned f = (\<forall>c w. cleaned (watch c w) \<longrightarrow> cleaned (watch (f c) w))"

definition handlers_keep_cleaned :: "(int16 \<Rightarrow> 'e handler option) \<Rightarrow> bool" where
  "handlers_keep_cleaned handlers =
     (\<forall>k h rq w. handlers k = Some h \<longrightarrow> keeps_cleaned (\<lambda>c. snd (h c rq w)))"

fun admin_keeps_cleaned :: "'e item \<Rightarrow> bool" where
  "admin_keeps_cleaned (AdminItem f) = keeps_cleaned f"
| "admin_keeps_cleaned _ = True"

section \<open>Properties\<close>

subsection \<open>Construction\<close>

lemma fresh3_new: "NewCluster listen_nth default_cfg () = Inr fresh3"
  by (simp add: NewCluster_def default_cfg_def listen_nth_def fresh3_def bound_port_def
      numeral_3_eq_3 numeral_2_eq_2)

subsection \<open>Leader election\<close>

text \<open>
  C2. After \<open>ShufflePartitionLeaders\<close>, whatever the random choices, the broker list
  and the set of partitions are as before, and every partition has its previous epoch
  plus exactly 1 and a leader that is a member of the broker list, or the no-leader
  sentinel when the broker list is empty.
\<close>

theorem ShufflePartitionLeaders_epoch_leader:
  "bs (ShufflePartitionLeaders rnd c) = bs c \<and>
   dom (tps (ShufflePartitionLeaders rnd c)) = dom (tps c) \<and>
   (\<forall>tp p. tps c tp = Some p \<longrightarrow>
      (\<exists>p'. tps (ShufflePartitionLeaders rnd c) tp = Some p' \<and>
            epoch p' = epoch p + 1 \<and>
            (if bs c = [] then leader p' = None
             else \<exists>b \<in> set (bs c). leader p' = Some b)))"
  by (auto simp: ShufflePartitionLeaders_def shufflePartitionsLocked_def dom_def
           split: option.splits)

theorem ShufflePartitionLeaders_epoch_leader_witness:
  "tps demo (''t'', 1) = Some \<lparr>leader = Some 1, epoch = 4\<rparr> \<and>
   (\<exists>p'. tps (ShufflePartitionLeaders (\<lambda>_. 5) demo) (''t'', 1) = Some p' \<and>
         epoch p' = 5 \<and> leader p' = Some 2)"
proof -
  have h: "tps demo (''t'', 1) = Some \<lparr>leader = Some 1, epoch = 4\<rparr>"
    by (simp add: demo_def)
  have l: "leader (the (tps (ShufflePartitionLeaders (\<lambda>_. 5) demo) (''t'', 1))) = Some 2"
    by (simp add: demo_def fresh3_def ShufflePartitionLeaders_def shufflePartitionsLocked_def)
  from ShufflePartitionLeaders_epoch_leader [of "\<lambda>_. 5" demo]
  have "tps demo (''t'', 1) = Some \<lparr>leader = Some 1, epoch = 4\<rparr> \<longrightarrow>
        (\<exists>p'. tps (ShufflePartitionLeaders (\<lambda>_. 5) demo) (''t'', 1) = Some p' \<and>
         epoch p' = epoch \<lparr>leader = Some 1, epoch = 4\<rparr> + 1 \<and>
         (if bs demo = [] then leader p' = None else \<exists>b \<in> set (bs demo). leader p' = Some b))"
    by blast
  with h l show ?thesis by auto
qed

subsection \<open>Moving a partition\<close>

text \<open>
  C5. \<open>MoveTopicPartition(topic, partition, nodeID)\<close>: when a live broker has the
  node ID and the partition exists, the call returns no error, the partition's leader
  is a live broker with that node ID, its epoch is as before, every other partition is
  as before and nothing but the partition store changes. When the node or the
  topic/partition does not exist, the call returns an error and the state is unchanged.
\<close>

theorem MoveTopicPartition_frame:
  assumes M: "MoveTopicPartition topic part nodeID c = (e, c')"
  shows "((\<exists>b \<in> set (bs c). node (brokers c b) = nodeID) \<and> tps c (topic, part) \<noteq> None \<longrightarrow>
            e = None \<and>
            (\<exists>br \<in> set (bs c). \<exists>pd pd'.
                node (brokers c br) = nodeID \<and>
                tps c (topic, part) = Some pd \<and> tps c' (topic, part) = Some pd' \<and>
                leader pd' = Some br \<and> epoch pd' = epoch pd) \<and>
            (\<forall>tp. tp \<noteq> (topic, part) \<longrightarrow> tps c' tp = tps c tp) \<and>
            c' = c\<lparr>tps := tps c'\<rparr>) \<and>
         (\<not> ((\<exists>b \<in> set (bs c). node (brokers c b) = nodeID) \<and> tps c (topic, part) \<noteq> None) \<longrightarrow>
            e \<noteq> None \<and> c' = c)"
proof (cases "find (\<lambda>b. node (brokers c b) = nodeID) (bs c)")
  case None
  then have "\<not> (\<exists>b \<in> set (bs c). node (brokers c b) = nodeID)"
    by (simp add: find_None_iff)
  with None M show ?thesis
    by (auto simp: MoveTopicPartition_def)
next
  case (Some br)
  then have br: "br \<in> set (bs c)" "node (brokers c br) = nodeID"
    by (auto simp: find_Some_iff)
  show ?thesis
  proof (cases "tps c (topic, part)")
    case None
    with Some M show ?thesis by (auto simp: MoveTopicPartition_def)
  next
    case (Some pd)
    with \<open>find _ _ = Some br\<close> M br show ?thesis
      by (auto simp: MoveTopicPartition_def)
  qed
qed

theorem MoveTopicPartition_frame_witness:
  "(\<exists>b \<in> set (bs demo). node (brokers demo b) = 2) \<and> tps demo (''t'', 0) \<noteq> None \<and>
   fst (MoveTopicPartition ''t'' 0 2 demo) = None \<and>
   tps (snd (MoveTopicPartition ''t'' 0 2 demo)) (''t'', 0) = Some \<lparr>leader = Some 2, epoch = 0\<rparr> \<and>
   tps (snd (MoveTopicPartition ''t'' 0 2 demo)) (''t'', 1) = tps demo (''t'', 1) \<and>
   \<not> (\<exists>b \<in> set (bs demo). node (brokers demo b) = 7) \<and>
   MoveTopicPartition ''t'' 0 7 demo = (Some (NodeNotFound 7), demo)"
proof -
  have ex: "\<exists>b \<in> set (bs demo). node (brokers demo b) = 2"
    by (simp add: demo_def fresh3_def)
  have nex: "\<not> (\<exists>b \<in> set (bs demo). node (brokers demo b) = 7)"
    by (simp add: demo_def fresh3_def)
  have tp: "tps demo (''t'', 0) = Some \<lparr>leader = Some 0, epoch = 0\<rparr>"
    by (simp add: demo_def)
  have l: "leader (the (tps (snd (MoveTopicPartition ''t'' 0 2 demo)) (''t'', 0))) = Some 2"
    by (simp add: demo_def fresh3_def MoveTopicPartition_def)
  have e7: "fst (MoveTopicPartition ''t'' 0 7 demo) = Some (NodeNotFound 7)"
    by (simp add: demo_def fresh3_def MoveTopicPartition_def)
  note a = MoveTopicPartition_frame [of "''t''" 0 2 demo
      "fst (MoveTopicPartition ''t'' 0 2 demo)" "snd (MoveTopicPartition ''t'' 0 2 demo)"]
  note b = MoveTopicPartition_frame [of "''t''" 0 7 demo
      "fst (MoveTopicPartition ''t'' 0 7 demo)" "snd (MoveTopicPartition ''t'' 0 7 demo)"]
  from a ex tp have
    "fst (MoveTopicPartition ''t'' 0 2 demo) = None"
    "\<exists>pd'. tps (snd (MoveTopicPartition ''t'' 0 2 demo)) (''t'', 0) = Some pd' \<and> epoch pd' = 0"
    "tps (snd (MoveTopicPartition ''t'' 0 2 demo)) (''t'', 1) = tps demo (''t'', 1)"
    by auto
  moreover from b nex have "snd (MoveTopicPartition ''t'' 0 7 demo) = demo" by simp
  ultimately show ?thesis using ex nex tp l e7
    by (auto simp: prod_eq_iff)
qed

subsection \<open>Removing a broker\<close>

lemma removeLoop_notfound:
  "\<forall>b \<in> set rest. node (brokers c b) \<noteq> nodeID \<Longrightarrow>
   removeLoop rnd nodeID rest i c = (Some (NodeNotFound nodeID), c)"
  by (induction rest arbitrary: i) simp_all

lemma removeLoop_hit:
  "node (brokers c b) = nodeID \<Longrightarrow> bs c ! i = b \<Longrightarrow>
   removeLoop rnd nodeID (b # post) i c =
     (if length (bs c) = 1 then (Some CannotRemoveAllBrokers, c)
      else (None, removed rnd i c))"
  unfolding removed_def by (simp add: Let_def)

lemma removeLoop_miss:
  "node (brokers c a) \<noteq> nodeID \<Longrightarrow>
   removeLoop rnd nodeID (a # rest) i c = removeLoop rnd nodeID rest (Suc i) c"
  by simp

lemma removeLoop_found:
  "\<forall>x \<in> set pre. node (brokers c x) \<noteq> nodeID \<Longrightarrow> node (brokers c b) = nodeID \<Longrightarrow>
   bs c ! (i + length pre) = b \<Longrightarrow>
   removeLoop rnd nodeID (pre @ b # post) i c =
     (if length (bs c) = 1 then (Some CannotRemoveAllBrokers, c)
      else (None, removed rnd (i + length pre) c))"
proof (induction pre arbitrary: i)
  case Nil
  then show ?case using removeLoop_hit[of c b nodeID i rnd post] by simp
next
  case (Cons a pre)
  from Cons.prems have nth: "bs c ! (Suc i + length pre) = b" by simp
  from Cons.prems have miss: "node (brokers c a) \<noteq> nodeID" by simp
  from Cons.prems have pre: "\<forall>x \<in> set pre. node (brokers c x) \<noteq> nodeID" by simp
  have "removeLoop rnd nodeID ((a # pre) @ b # post) i c
        = removeLoop rnd nodeID (pre @ b # post) (Suc i) c"
    using removeLoop_miss[OF miss] by simp
  also have "\<dots> = (if length (bs c) = 1 then (Some CannotRemoveAllBrokers, c)
      else (None, removed rnd (Suc i + length pre) c))"
    using Cons.IH[OF pre Cons.prems(2) nth] .
  finally show ?case by simp
qed


lemma first_hit:
  assumes "\<exists>b \<in> set xs. P b"
  shows "\<exists>pre b post. xs = pre @ b # post \<and> P b \<and> (\<forall>x \<in> set pre. \<not> P x)"
  using assms
proof (induction xs)
  case Nil
  then show ?case by simp
next
  case (Cons a xs)
  show ?case
  proof (cases "P a")
    case True
    then have "a # xs = [] @ a # xs \<and> P a \<and> (\<forall>x \<in> set []. \<not> P x)" by simp
    then show ?thesis by blast
  next
    case False
    with Cons.prems have "\<exists>b \<in> set xs. P b" by simp
    from Cons.IH[OF this] obtain pre b post
      where "xs = pre @ b # post" "P b" "\<forall>x \<in> set pre. \<not> P x" by blast
    with False have "a # xs = (a # pre) @ b # post \<and> P b \<and> (\<forall>x \<in> set (a # pre). \<not> P x)"
      by simp
    then show ?thesis by blast
  qed
qed

lemma RemoveNode_found:
  assumes sp: "bs c = pre @ b # post" and hit: "node (brokers c b) = nodeID"
    and miss: "\<forall>x \<in> set pre. node (brokers c x) \<noteq> nodeID"
  shows "RemoveNode rnd nodeID c =
     (if length (bs c) = 1 then (Some CannotRemoveAllBrokers, c)
      else (None, removed rnd (length pre) c))"
proof -
  have nth: "bs c ! (0 + length pre) = b" using sp by simp
  have "removeLoop rnd nodeID (pre @ b # post) 0 c =
     (if length (bs c) = 1 then (Some CannotRemoveAllBrokers, c)
      else (None, removed rnd (0 + length pre) c))"
    using miss hit nth by (rule removeLoop_found)
  then show ?thesis unfolding RemoveNode_def sp[symmetric] by simp
qed


lemma removed_bs: "bs (removed rnd i c) = butlast ((bs c)[i := last (bs c)])"
  by (simp add: removed_def shufflePartitionsLocked_def Let_def)

lemma removed_nbrokers: "nbrokers (removed rnd i c) = nbrokers c - 1"
  by (simp add: removed_def shufflePartitionsLocked_def Let_def)

lemma removed_closed: "\<not> ln_open (brokers (removed rnd i c) (bs c ! i))"
  by (simp add: removed_def shufflePartitionsLocked_def Let_def)

lemma removed_bsIdx: "bsIdx (brokers (removed rnd i c) (last (bs c))) = i"
  by (simp add: removed_def shufflePartitionsLocked_def Let_def)

lemma removed_node: "node (brokers (removed rnd i c) p) = node (brokers c p)"
  by (simp add: removed_def shufflePartitionsLocked_def Let_def)

lemma removed_other:
  "p \<noteq> bs c ! i \<Longrightarrow> p \<noteq> last (bs c) \<Longrightarrow> brokers (removed rnd i c) p = brokers c p"
  by (simp add: removed_def shufflePartitionsLocked_def Let_def)

lemma removed_tps:
  "tps (removed rnd i c) tp =
     (case tps c tp of None \<Rightarrow> None
      | Some p \<Rightarrow> Some (p\<lparr>leader := (if length (bs (removed rnd i c)) = 0 then None
                 else Some (bs (removed rnd i c) ! (rnd tp mod length (bs (removed rnd i c))))),
               epoch := epoch p + 1\<rparr>))"
  unfolding removed_bs
  by (simp add: removed_def shufflePartitionsLocked_def Let_def split: option.split)

lemma removed_reshuffle:
  assumes "2 \<le> length (bs c)" and "tps c tp = Some p"
  shows "\<exists>p'. tps (removed rnd i c) tp = Some p' \<and> epoch p' = epoch p + 1 \<and>
              (\<exists>b \<in> set (bs (removed rnd i c)). leader p' = Some b)"
proof -
  have "length (bs (removed rnd i c)) = length (bs c) - 1"
    by (simp add: removed_bs)
  with assms(1) have pos: "0 < length (bs (removed rnd i c))" by simp
  then have "bs (removed rnd i c) ! (rnd tp mod length (bs (removed rnd i c)))
             \<in> set (bs (removed rnd i c))"
    by simp
  with pos assms(2) show ?thesis by (simp add: removed_tps)
qed

lemma removed_dom: "dom (tps (removed rnd i c)) = dom (tps c)"
  by (auto simp: removed_tps dom_def split: option.splits)


text \<open>
  C6. \<open>RemoveNode(nodeID)\<close>: an error and the state unchanged when no live broker has
  the node ID; an error and the state unchanged when the broker with the node ID is the
  only one; otherwise no error, and for the first index \<open>i\<close> of a broker with the node
  ID: that broker's listener is closed, the broker list is the old one with the last
  element written at \<open>i\<close> and the last element cut off, the moved broker's \<open>bsIdx\<close> is
  \<open>i\<close>, no node ID and no other broker changes, the broker count goes down by one,
  and every partition has its epoch plus 1 and a leader from the new broker list.
\<close>

theorem RemoveNode_spec:
  assumes R: "RemoveNode rnd nodeID c = (e, c')"
  shows "((\<forall>b \<in> set (bs c). node (brokers c b) \<noteq> nodeID) \<longrightarrow>
            e = Some (NodeNotFound nodeID) \<and> c' = c) \<and>
         ((\<exists>b. bs c = [b] \<and> node (brokers c b) = nodeID) \<longrightarrow>
            e = Some CannotRemoveAllBrokers \<and> c' = c) \<and>
         ((\<exists>b \<in> set (bs c). node (brokers c b) = nodeID) \<and> length (bs c) \<noteq> 1 \<longrightarrow>
            e = None \<and>
            (\<exists>i < length (bs c).
                node (brokers c (bs c ! i)) = nodeID \<and>
                (\<forall>j < i. node (brokers c (bs c ! j)) \<noteq> nodeID) \<and>
                \<not> ln_open (brokers c' (bs c ! i)) \<and>
                bs c' = butlast ((bs c)[i := last (bs c)]) \<and>
                bsIdx (brokers c' (last (bs c))) = i \<and>
                (\<forall>p. node (brokers c' p) = node (brokers c p)) \<and>
                (\<forall>p. p \<noteq> bs c ! i \<and> p \<noteq> last (bs c) \<longrightarrow> brokers c' p = brokers c p) \<and>
                nbrokers c' = nbrokers c - 1 \<and>
                dom (tps c') = dom (tps c) \<and>
                (\<forall>tp p. tps c tp = Some p \<longrightarrow>
                   (\<exists>p'. tps c' tp = Some p' \<and> epoch p' = epoch p + 1 \<and>
                         (\<exists>b' \<in> set (bs c'). leader p' = Some b')))))"
proof (cases "\<exists>b \<in> set (bs c). node (brokers c b) = nodeID")
  case False
  then have "RemoveNode rnd nodeID c = (Some (NodeNotFound nodeID), c)"
    by (simp add: RemoveNode_def removeLoop_notfound)
  with R False show ?thesis by auto
next
  case True
  from first_hit [of "bs c" "\<lambda>b. node (brokers c b) = nodeID", OF True]
  obtain pre b post where sp: "bs c = pre @ b # post" and hit: "node (brokers c b) = nodeID"
    and miss: "\<forall>x \<in> set pre. node (brokers c x) \<noteq> nodeID"
    by blast
  note rn = RemoveNode_found [OF sp hit miss, of rnd]
  show ?thesis
  proof (cases "length (bs c) = 1")
    case one: True
    with rn R have "e = Some CannotRemoveAllBrokers" "c' = c" by simp_all
    with True one show ?thesis by auto
  next
    case more: False
    with rn R have e: "e = None" and c': "c' = removed rnd (length pre) c" by simp_all
    from sp more have two: "2 \<le> length (bs c)" by (cases pre; cases post) simp_all
    have i: "length pre < length (bs c)" using sp by simp
    have at: "bs c ! length pre = b" using sp by simp
    have hit': "node (brokers c (bs c ! length pre)) = nodeID" using at hit by simp
    have before: "\<forall>j < length pre. node (brokers c (bs c ! j)) \<noteq> nodeID"
      using sp miss by (simp add: nth_append)
    have resh: "\<forall>tp p. tps c tp = Some p \<longrightarrow>
                   (\<exists>p'. tps c' tp = Some p' \<and> epoch p' = epoch p + 1 \<and>
                         (\<exists>b' \<in> set (bs c'). leader p' = Some b'))"
      unfolding c' using removed_reshuffle [OF two] by blast
    have body: "node (brokers c (bs c ! length pre)) = nodeID \<and>
                (\<forall>j < length pre. node (brokers c (bs c ! j)) \<noteq> nodeID) \<and>
                \<not> ln_open (brokers c' (bs c ! length pre)) \<and>
                bs c' = butlast ((bs c)[length pre := last (bs c)]) \<and>
                bsIdx (brokers c' (last (bs c))) = length pre \<and>
                (\<forall>p. node (brokers c' p) = node (brokers c p)) \<and>
                (\<forall>p. p \<noteq> bs c ! length pre \<and> p \<noteq> last (bs c) \<longrightarrow> brokers c' p = brokers c p) \<and>
                nbrokers c' = nbrokers c - 1 \<and>
                dom (tps c') = dom (tps c) \<and>
                (\<forall>tp p. tps c tp = Some p \<longrightarrow>
                   (\<exists>p'. tps c' tp = Some p' \<and> epoch p' = epoch p + 1 \<and>
                         (\<exists>b' \<in> set (bs c'). leader p' = Some b')))"
      using hit' before resh
      by (simp add: c' removed_closed removed_bs removed_bsIdx removed_node removed_other
          removed_nbrokers removed_dom)
    have c1: "(\<forall>b \<in> set (bs c). node (brokers c b) \<noteq> nodeID) \<longrightarrow>
            e = Some (NodeNotFound nodeID) \<and> c' = c"
      using True by blast
    have c2: "(\<exists>b. bs c = [b] \<and> node (brokers c b) = nodeID) \<longrightarrow>
            e = Some CannotRemoveAllBrokers \<and> c' = c"
      using more by auto
    from i body e show ?thesis
      apply (intro conjI)
        apply (rule c1)
       apply (rule c2)
      apply (rule impI)
      apply (rule conjI)
       apply assumption
      apply (rule exI [of _ "length pre"])
      apply (rule conjI)
       apply assumption
      apply assumption
      done
  qed
qed


theorem RemoveNode_spec_witness:
  "RemoveNode (\<lambda>_. 0) 9 demo = (Some (NodeNotFound 9), demo) \<and>
   RemoveNode (\<lambda>_. 0) 0 solo = (Some CannotRemoveAllBrokers, solo) \<and>
   fst (RemoveNode (\<lambda>_. 0) 0 demo) = None \<and>
   bs (snd (RemoveNode (\<lambda>_. 0) 0 demo)) = [2, 1] \<and>
   bsIdx (brokers (snd (RemoveNode (\<lambda>_. 0) 0 demo)) 2) = 0 \<and>
   \<not> ln_open (brokers (snd (RemoveNode (\<lambda>_. 0) 0 demo)) 0) \<and>
   tps (snd (RemoveNode (\<lambda>_. 0) 0 demo)) (''t'', 1) = Some \<lparr>leader = Some 2, epoch = 5\<rparr>"
proof -
  have h1: "\<forall>b \<in> set (bs demo). node (brokers demo b) \<noteq> 9"
    by (simp add: demo_def fresh3_def)
  have h2: "\<exists>b. bs solo = [b] \<and> node (brokers solo b) = 0"
    by (simp add: solo_def demo_def fresh3_def)
  have h3: "(\<exists>b \<in> set (bs demo). node (brokers demo b) = 0) \<and> length (bs demo) \<noteq> 1"
    by (simp add: demo_def fresh3_def)
  have ev: "bs (snd (RemoveNode (\<lambda>_. 0) 0 demo)) = [2, 1] \<and>
   bsIdx (brokers (snd (RemoveNode (\<lambda>_. 0) 0 demo)) 2) = 0 \<and>
   \<not> ln_open (brokers (snd (RemoveNode (\<lambda>_. 0) 0 demo)) 0) \<and>
   tps (snd (RemoveNode (\<lambda>_. 0) 0 demo)) (''t'', 1) = Some \<lparr>leader = Some 2, epoch = 5\<rparr>"
    by (simp add: RemoveNode_def demo_def fresh3_def shufflePartitionsLocked_def Let_def)
  from RemoveNode_spec [of "\<lambda>_. 0" 9 demo "fst (RemoveNode (\<lambda>_. 0) 9 demo)"
      "snd (RemoveNode (\<lambda>_. 0) 9 demo)"] h1
  have a: "RemoveNode (\<lambda>_. 0) 9 demo = (Some (NodeNotFound 9), demo)"
    by (simp add: prod_eq_iff)
  from RemoveNode_spec [of "\<lambda>_. 0" 0 solo "fst (RemoveNode (\<lambda>_. 0) 0 solo)"
      "snd (RemoveNode (\<lambda>_. 0) 0 solo)"] h2
  have b: "RemoveNode (\<lambda>_. 0) 0 solo = (Some CannotRemoveAllBrokers, solo)"
    by (simp add: prod_eq_iff)
  from RemoveNode_spec [of "\<lambda>_. 0" 0 demo "fst (RemoveNode (\<lambda>_. 0) 0 demo)"
      "snd (RemoveNode (\<lambda>_. 0) 0 demo)"] h3
  have c: "fst (RemoveNode (\<lambda>_. 0) 0 demo) = None"
    by simp
  from a b c ev show ?thesis by simp
qed

subsection \<open>Adding a broker\<close>

lemma sint_succ32:
  fixes x :: int32
  assumes "sint x < 2147483647"
  shows "sint (x + 1) = sint x + 1"
proof -
  have lo: "- (2 ^ 31) \<le> sint x" using sint_ge [of x] by simp
  have "sint (x + 1) = signed_take_bit 31 (sint x + 1)"
    by (simp add: sint_word_ariths)
  also have "\<dots> = sint x + 1"
    using lo assms by (intro signed_take_bit_int_eq_self) simp_all
  finally show ?thesis .
qed

lemma scanMax_ge_start: "sint x \<le> sint (scanMax h x xs)"
proof (induction xs arbitrary: x)
  case Nil
  then show ?case by simp
next
  case (Cons b xs)
  have "sint x \<le> sint (if x <s node (h b) then node (h b) else x)"
    by (simp add: word_sless_alt)
  also have "\<dots> \<le> sint (scanMax h (if x <s node (h b) then node (h b) else x) xs)"
    by (rule Cons.IH)
  finally show ?case by simp
qed

lemma scanMax_ge_all: "b \<in> set xs \<Longrightarrow> sint (node (h b)) \<le> sint (scanMax h x xs)"
proof (induction xs arbitrary: x)
  case Nil
  then show ?case by simp
next
  case (Cons a xs)
  show ?case
  proof (cases "b = a")
    case True
    have "sint (node (h a)) \<le> sint (if x <s node (h a) then node (h a) else x)"
      by (simp add: word_sless_alt)
    also have "\<dots> \<le> sint (scanMax h (if x <s node (h a) then node (h a) else x) xs)"
      by (rule scanMax_ge_start)
    finally show ?thesis using True by simp
  next
    case False
    with Cons.prems have "b \<in> set xs" by simp
    from Cons.IH [OF this] show ?thesis by simp
  qed
qed

lemma scanMax_mem: "scanMax h x xs = x \<or> (\<exists>b \<in> set xs. scanMax h x xs = node (h b))"
proof (induction xs arbitrary: x)
  case Nil
  then show ?case by simp
next
  case (Cons a xs)
  from Cons.IH [of "if x <s node (h a) then node (h a) else x"]
  show ?case by (auto split: if_splits)
qed

lemma scanMax_max:
  assumes "xs \<noteq> []"
  shows "\<exists>m \<in> set xs. scanMax h (node (h (hd xs))) (tl xs) = node (h m) \<and>
                      (\<forall>b \<in> set xs. sint (node (h b)) \<le> sint (node (h m)))"
proof -
  from assms obtain a rest where xs: "xs = a # rest" by (cases xs) auto
  let ?r = "scanMax h (node (h a)) rest"
  have ge: "\<forall>b \<in> set xs. sint (node (h b)) \<le> sint ?r"
    using scanMax_ge_start [of "node (h a)" h rest] scanMax_ge_all [of _ rest h "node (h a)"]
    by (auto simp: xs)
  from scanMax_mem [of h "node (h a)" rest]
  have "\<exists>m \<in> set xs. ?r = node (h m)" by (auto simp: xs)
  then obtain m where "m \<in> set xs" "?r = node (h m)" by blast
  with ge show ?thesis by (auto simp: xs)
qed


lemma AddNode_exists:
  assumes "AddNode newListener rnd nodeID port c = ((nid, p, e), c')"
    and "0 \<le>s nodeID" and "\<exists>b \<in> set (bs c). node (brokers c b) = nodeID"
  shows "e = Some (NodeAlreadyExists nodeID) \<and> c' = c \<and> nid = nodeID"
  using assms by (auto simp: AddNode_def)

lemma AddNode_auto_empty:
  assumes "AddNode newListener rnd nodeID port c = ((nid, p, e), c')"
    and "nodeID <s 0" and "bs c = []"
  shows "nid = 0"
  using assms by (auto simp: AddNode_def Let_def word_sless_alt word_sle_eq split: sum.splits)

lemma AddNode_auto_scan:
  assumes "AddNode newListener rnd nodeID port c = ((nid, p, e), c')"
    and "nodeID <s 0" and "bs c \<noteq> []"
  shows "nid = scanMax (brokers c) (node (brokers c (hd (bs c)))) (tl (bs c)) + 1"
  using assms by (auto simp: AddNode_def Let_def word_sless_alt word_sle_eq split: sum.splits)

lemma AddNode_explicit:
  assumes "AddNode newListener rnd nodeID port c = ((nid, p, e), c')"
    and "0 \<le>s nodeID"
  shows "nid = nodeID"
  using assms by (auto simp: AddNode_def Let_def split: sum.splits if_splits)

lemma AddNode_failed:
  assumes "AddNode newListener rnd nodeID port c = ((nid, p, e), c')" and "e \<noteq> None"
  shows "c' = c"
  using assms by (auto simp: AddNode_def Let_def split: sum.splits if_splits)

lemma AddNode_added:
  assumes "AddNode newListener rnd nodeID port c = ((nid, p, e), c')" and "e = None"
  shows "c' = shufflePartitionsLocked rnd
            (c\<lparr>brokers := (brokers c)
                   (nalloc c := \<lparr>ln_open = True, ln_port = p, node = nid, bsIdx = length (bs c)\<rparr>),
               nalloc := Suc (nalloc c), bs := bs c @ [nalloc c], nbrokers := nbrokers c + 1\<rparr>) \<and>
         (\<exists>n. newListener (if port < 0 then 0 else port) = Inr n \<and>
              p = bound_port (if port < 0 then 0 else port) n)"
  using assms by (auto simp: AddNode_def Let_def split: sum.splits if_splits)

lemma AddNode_port_pos:
  assumes "AddNode newListener rnd nodeID port c = ((nid, p, e), c')" and "e = None"
  shows "0 < p"
  using assms by (auto simp: AddNode_def Let_def bound_port_def split: sum.splits if_splits)

lemma AddNode_binds:
  assumes "AddNode newListener rnd nodeID port c = ((nid, p, e), c')"
    and "\<not> (0 \<le>s nodeID \<and> (\<exists>b \<in> set (bs c). node (brokers c b) = nodeID))"
    and "newListener (if port < 0 then 0 else port) = Inr q"
  shows "e = None \<and> p = bound_port (if port < 0 then 0 else port) q"
  using assms by (auto simp: AddNode_def Let_def split: sum.splits if_splits)

lemma NewCluster_default:
  assumes "NewCluster nl default_cfg e0 = Inr c"
  shows "bs c = [0, 1, 2] \<and> node (brokers c 0) = 0 \<and> node (brokers c (Suc 0)) = 1 \<and>
         node (brokers c 2) = 2 \<and> nbrokers c = 3 \<and> nalloc c = 3"
  using assms
  by (auto simp: NewCluster_def default_cfg_def Let_def numeral_3_eq_3 numeral_2_eq_2
      split: sum.splits if_splits)

lemma AddNode_fresh3:
  assumes A: "AddNode newListener rnd (- 1) 0 c = ((nid, p, e), c')"
    and new: "NewCluster nl default_cfg e0 = Inr c"
    and l: "newListener 0 = Inr q"
  shows "nid = 3 \<and> p = 1 + int q \<and> e = None \<and> length (bs c') = 4 \<and> nbrokers c' = 4"
proof -
  note d = NewCluster_default [OF new]
  have neg: "(- 1 :: int32) <s 0" by (simp add: word_sless_alt)
  have nonex: "\<not> (0 \<le>s (- 1 :: int32) \<and> (\<exists>b \<in> set (bs c). node (brokers c b) = - 1))"
    by (simp add: word_sle_eq)
  have lst: "newListener (if (0::int) < 0 then 0 else 0) = Inr q" using l by simp
  from AddNode_binds [OF A nonex lst] have ep: "e = None" "p = 1 + int q"
    by (simp_all add: bound_port_def)
  from d have ne: "bs c \<noteq> []" by simp
  have "nid = scanMax (brokers c) (node (brokers c (hd (bs c)))) (tl (bs c)) + 1"
    using AddNode_auto_scan [OF A neg ne] .
  also have "\<dots> = 3" using d by (simp add: word_sless_alt)
  finally have nid: "nid = 3" .
  from AddNode_added [OF A ep(1)] have "bs c' = bs c @ [nalloc c]" "nbrokers c' = nbrokers c + 1"
    by (simp_all add: shufflePartitionsLocked_def)
  with d have "length (bs c') = 4" "nbrokers c' = 4" by simp_all
  with nid ep show ?thesis by simp
qed



text \<open>
  C7, as amended. \<open>AddNode(nodeID, port)\<close>: with \<open>nodeID \<ge> 0\<close> and a live broker of
  that ID, an error and no broker added (the state is unchanged); with \<open>nodeID < 0\<close>
  and no broker, the ID 0; with \<open>nodeID < 0\<close> and brokers, whose largest ID is below
  \<open>2^31 - 1\<close>, the ID one greater than the largest; a call without error returns a
  bound port greater than 0 and appends one broker with the returned ID and port, a
  call with an error changes nothing; and on the cluster \<open>NewCluster\<close> makes from the
  default configuration, \<open>AddNode(-1, 0)\<close> with a listener that binds returns the ID
  3, a bound port greater than 0 (the one the system chose), no error, and leaves 4
  brokers.
\<close>

theorem AddNode_spec:
  assumes A: "AddNode newListener rnd nodeID port c = ((nid, p, e), c')"
  shows "(0 \<le>s nodeID \<and> (\<exists>b \<in> set (bs c). node (brokers c b) = nodeID) \<longrightarrow>
            e = Some (NodeAlreadyExists nodeID) \<and> c' = c) \<and>
         (nodeID <s 0 \<and> bs c = [] \<longrightarrow> nid = 0) \<and>
         (nodeID <s 0 \<and> bs c \<noteq> [] \<longrightarrow>
            (\<exists>m \<in> set (bs c).
                (\<forall>b \<in> set (bs c). sint (node (brokers c b)) \<le> sint (node (brokers c m))) \<and>
                (sint (node (brokers c m)) < 2147483647 \<longrightarrow>
                   sint nid = sint (node (brokers c m)) + 1))) \<and>
         (e = None \<longrightarrow>
            0 < p \<and>
            bs c' = bs c @ [nalloc c] \<and> node (brokers c' (nalloc c)) = nid \<and>
            ln_open (brokers c' (nalloc c)) \<and> ln_port (brokers c' (nalloc c)) = p \<and>
            nbrokers c' = nbrokers c + 1) \<and>
         (e \<noteq> None \<longrightarrow> c' = c) \<and>
         (\<forall>nl e0 n. NewCluster nl default_cfg e0 = Inr c \<and> nodeID = - 1 \<and> port = 0 \<and>
                    newListener 0 = Inr n \<longrightarrow>
            nid = 3 \<and> 0 < p \<and> p = 1 + int n \<and> e = None \<and>
            length (bs c') = 4 \<and> nbrokers c' = 4)"
proof -
  have c1: "0 \<le>s nodeID \<and> (\<exists>b \<in> set (bs c). node (brokers c b) = nodeID) \<longrightarrow>
            e = Some (NodeAlreadyExists nodeID) \<and> c' = c"
    using AddNode_exists [OF A] by blast
  have c2: "nodeID <s 0 \<and> bs c = [] \<longrightarrow> nid = 0"
    using AddNode_auto_empty [OF A] by blast
  have c3: "nodeID <s 0 \<and> bs c \<noteq> [] \<longrightarrow>
            (\<exists>m \<in> set (bs c).
                (\<forall>b \<in> set (bs c). sint (node (brokers c b)) \<le> sint (node (brokers c m))) \<and>
                (sint (node (brokers c m)) < 2147483647 \<longrightarrow>
                   sint nid = sint (node (brokers c m)) + 1))"
  proof
    assume h: "nodeID <s 0 \<and> bs c \<noteq> []"
    then have nid: "nid = scanMax (brokers c) (node (brokers c (hd (bs c)))) (tl (bs c)) + 1"
      using AddNode_auto_scan [OF A] by blast
    from h have ne: "bs c \<noteq> []" by simp
    from scanMax_max [OF ne, of "brokers c"] obtain m where m: "m \<in> set (bs c)"
      "scanMax (brokers c) (node (brokers c (hd (bs c)))) (tl (bs c)) = node (brokers c m)"
      "\<forall>b \<in> set (bs c). sint (node (brokers c b)) \<le> sint (node (brokers c m))"
      by blast
    have "sint (node (brokers c m)) < 2147483647 \<longrightarrow> sint nid = sint (node (brokers c m)) + 1"
      using nid m(2) sint_succ32 [of "node (brokers c m)"] by simp
    with m(1) m(3) show "\<exists>m \<in> set (bs c).
                (\<forall>b \<in> set (bs c). sint (node (brokers c b)) \<le> sint (node (brokers c m))) \<and>
                (sint (node (brokers c m)) < 2147483647 \<longrightarrow>
                   sint nid = sint (node (brokers c m)) + 1)"
      by blast
  qed
  have c4: "e = None \<longrightarrow>
            0 < p \<and>
            bs c' = bs c @ [nalloc c] \<and> node (brokers c' (nalloc c)) = nid \<and>
            ln_open (brokers c' (nalloc c)) \<and> ln_port (brokers c' (nalloc c)) = p \<and>
            nbrokers c' = nbrokers c + 1"
  proof
    assume n: "e = None"
    from AddNode_added [OF A n] have "bs c' = bs c @ [nalloc c] \<and>
            node (brokers c' (nalloc c)) = nid \<and>
            ln_open (brokers c' (nalloc c)) \<and> ln_port (brokers c' (nalloc c)) = p \<and>
            nbrokers c' = nbrokers c + 1"
      by (simp add: shufflePartitionsLocked_def)
    with AddNode_port_pos [OF A n] show "0 < p \<and> bs c' = bs c @ [nalloc c] \<and>
            node (brokers c' (nalloc c)) = nid \<and>
            ln_open (brokers c' (nalloc c)) \<and> ln_port (brokers c' (nalloc c)) = p \<and>
            nbrokers c' = nbrokers c + 1"
      by (rule conjI)
  qed
  have c5: "e \<noteq> None \<longrightarrow> c' = c"
    using AddNode_failed [OF A] by blast
  have c6: "\<forall>nl e0 n. NewCluster nl default_cfg e0 = Inr c \<and> nodeID = - 1 \<and> port = 0 \<and>
                    newListener 0 = Inr n \<longrightarrow>
            nid = 3 \<and> 0 < p \<and> p = 1 + int n \<and> e = None \<and>
            length (bs c') = 4 \<and> nbrokers c' = 4"
  proof (intro allI impI)
    fix nl :: "nat \<Rightarrow> int \<Rightarrow> error + nat" and e0 :: 'a and n :: nat
    assume h: "NewCluster nl default_cfg e0 = Inr c \<and> nodeID = - 1 \<and> port = 0 \<and>
                    newListener 0 = Inr n"
    then have new: "NewCluster nl default_cfg e0 = Inr c" and l: "newListener 0 = Inr n"
      by simp_all
    from h A have A': "AddNode newListener rnd (- 1) 0 c = ((nid, p, e), c')" by simp
    from AddNode_fresh3 [OF A' new l]
    show "nid = 3 \<and> 0 < p \<and> p = 1 + int n \<and> e = None \<and>
          length (bs c') = 4 \<and> nbrokers c' = 4"
      by simp
  qed
  show ?thesis
    apply (rule conjI, rule c1)
    apply (rule conjI, rule c2)
    apply (rule conjI, rule c3)
    apply (rule conjI, rule c4)
    apply (rule conjI, rule c5)
    apply (rule c6)
    done
qed


theorem AddNode_spec_witness:
  "NewCluster listen_nth default_cfg () = Inr fresh3 \<and> listen_ok 0 = Inr 39999 \<and>
   fst (AddNode listen_ok (\<lambda>_. 0) (- 1) 0 fresh3) = (3, 40000, None) \<and>
   length (bs (snd (AddNode listen_ok (\<lambda>_. 0) (- 1) 0 fresh3))) = 4 \<and>
   nbrokers (snd (AddNode listen_ok (\<lambda>_. 0) (- 1) 0 fresh3)) = 4 \<and>
   (0 :: int32) \<le>s 1 \<and> (\<exists>b \<in> set (bs fresh3). node (brokers fresh3 b) = 1) \<and>
   snd (snd (fst (AddNode listen_ok (\<lambda>_. 0) 1 0 fresh3))) = Some (NodeAlreadyExists 1) \<and>
   snd (AddNode listen_ok (\<lambda>_. 0) 1 0 fresh3) = fresh3"
proof -
  let ?R = "AddNode listen_ok (\<lambda>_. 0) (- 1) 0 fresh3"
  let ?S = "AddNode listen_ok (\<lambda>_. 0) 1 0 fresh3"
  have l: "listen_ok 0 = Inr 39999" by (simp add: listen_ok_def)
  have pos: "(0 :: int32) \<le>s 1" by (simp add: word_sle_eq)
  have ex: "\<exists>b \<in> set (bs fresh3). node (brokers fresh3 b) = 1" by (simp add: fresh3_def)
  have R: "?R = ((fst (fst ?R), fst (snd (fst ?R)), snd (snd (fst ?R))), snd ?R)" by simp
  have S: "?S = ((fst (fst ?S), fst (snd (fst ?S)), snd (snd (fst ?S))), snd ?S)" by simp
  from AddNode_spec [OF R]
  have "\<forall>nl e0 n. NewCluster nl default_cfg e0 = Inr fresh3 \<and> (- 1 :: int32) = - 1 \<and>
            (0 :: int) = 0 \<and> listen_ok 0 = Inr n \<longrightarrow>
          fst (fst ?R) = 3 \<and> 0 < fst (snd (fst ?R)) \<and> fst (snd (fst ?R)) = 1 + int n \<and>
          snd (snd (fst ?R)) = None \<and> length (bs (snd ?R)) = 4 \<and> nbrokers (snd ?R) = 4"
    by (elim conjE)
  from this [rule_format, of listen_nth "()" 39999] fresh3_new l
  have "fst (fst ?R) = 3 \<and> fst (snd (fst ?R)) = 40000 \<and> snd (snd (fst ?R)) = None \<and>
        length (bs (snd ?R)) = 4 \<and> nbrokers (snd ?R) = 4"
    by simp
  then have r: "fst ?R = (3, 40000, None) \<and> length (bs (snd ?R)) = 4 \<and> nbrokers (snd ?R) = 4"
    by (simp add: prod_eq_iff)
  from AddNode_spec [OF S] pos ex
  have s: "snd (snd (fst ?S)) = Some (NodeAlreadyExists 1) \<and> snd ?S = fresh3"
    by simp
  from fresh3_new l r pos ex s show ?thesis by simp
qed


text \<open>
  C7 as stated fails where the largest live ID is \<open>2^31 - 1\<close>: after
  \<open>AddNode(2147483647, 0)\<close> on the fresh cluster, \<open>AddNode(-1, 0)\<close> returns
  \<open>-2147483648\<close>, which is not one greater than the largest ID (\<open>nodeID++\<close> wraps).
\<close>

theorem AddNode_wraps:
  "bs maxed = [0, 1, 2, 3] \<and> sint (node (brokers maxed 3)) = 2147483647 \<and>
   sint (node (brokers maxed 0)) = 0 \<and> sint (node (brokers maxed 1)) = 1 \<and>
   sint (node (brokers maxed 2)) = 2 \<and>
   sint (fst (fst (AddNode listen_ok pick_first (- 1) 0 maxed))) = - 2147483648 \<and>
   sint (fst (fst (AddNode listen_ok pick_first (- 1) 0 maxed))) \<noteq> sint (node (brokers maxed 3)) + 1"
  by (simp add: maxed_def AddNode_def fresh3_def listen_ok_def bound_port_def shufflePartitionsLocked_def
      Let_def no_broker_def word_sless_alt word_sle_eq)

subsection \<open>Node IDs over the life of the cluster\<close>

lemma swap_remove_snoc:
  assumes d: "distinct (ys @ [l])" and i: "i < length (ys @ [l])"
  shows "distinct (butlast ((ys @ [l])[i := l])) \<and>
         set (butlast ((ys @ [l])[i := l])) = set (ys @ [l]) - {(ys @ [l]) ! i}"
proof (cases "i < length ys")
  case True
  from d have dy: "distinct ys" and l: "l \<notin> set ys" by simp_all
  have eq: "butlast ((ys @ [l])[i := l]) = ys[i := l]"
    using True by (simp add: list_update_append butlast_append)
  have nth: "(ys @ [l]) ! i = ys ! i" using True by (simp add: nth_append)
  have mem: "ys ! i \<in> set ys" using True by simp
  have d': "distinct (ys[i := l])"
    using dy l by (intro distinct_list_update) auto
  have s': "set (ys[i := l]) = insert l (set ys - {ys ! i})"
    using dy True by (rule set_update_distinct)
  have "set (ys[i := l]) = set (ys @ [l]) - {ys ! i}"
    unfolding s' using l mem by auto
  with d' show ?thesis unfolding eq nth by simp
next
  case False
  with i have il: "i = length ys" by simp
  from d have dy: "distinct ys" and l: "l \<notin> set ys" by simp_all
  have eq: "butlast ((ys @ [l])[i := l]) = ys" by (simp add: il)
  have nth: "(ys @ [l]) ! i = l" by (simp add: il)
  have "set ys = set (ys @ [l]) - {l}" using l by auto
  with dy show ?thesis unfolding eq nth by simp
qed

lemma swap_remove:
  assumes d: "distinct xs" and i: "i < length xs"
  shows "distinct (butlast (xs[i := last xs])) \<and>
         set (butlast (xs[i := last xs])) = set xs - {xs ! i}"
proof -
  from i have "xs \<noteq> []" by auto
  then have xs: "xs = butlast xs @ [last xs]" by simp
  from swap_remove_snoc [of "butlast xs" "last xs" i] d i xs
  show ?thesis by simp
qed


lemma nodes_removed:
  assumes "i < length (bs c)"
  shows "nodes (removed rnd i c) = butlast ((nodes c)[i := last (nodes c)])"
proof -
  from assms have ne: "bs c \<noteq> []" by auto
  have "nodes (removed rnd i c) = map (\<lambda>b. node (brokers c b)) (butlast ((bs c)[i := last (bs c)]))"
    by (simp add: nodes_def removed_bs removed_node)
  also have "\<dots> = butlast ((nodes c)[i := last (nodes c)])"
    using ne by (simp add: nodes_def map_butlast map_update last_map)
  finally show ?thesis .
qed

lemma RemoveNode_ok:
  assumes "RemoveNode rnd k c = (None, c1)"
  shows "\<exists>i < length (bs c). nodes c ! i = k \<and> 2 \<le> length (bs c) \<and> c1 = removed rnd i c"
proof (cases "\<exists>b \<in> set (bs c). node (brokers c b) = k")
  case False
  then have "RemoveNode rnd k c = (Some (NodeNotFound k), c)"
    by (simp add: RemoveNode_def removeLoop_notfound)
  with assms show ?thesis by simp
next
  case True
  from first_hit [of "bs c" "\<lambda>b. node (brokers c b) = k", OF True]
  obtain pre b post where sp: "bs c = pre @ b # post" and hit: "node (brokers c b) = k"
    and miss: "\<forall>x \<in> set pre. node (brokers c x) \<noteq> k"
    by blast
  note rn = RemoveNode_found [OF sp hit miss, of rnd]
  from rn assms have more: "length (bs c) \<noteq> 1" and c1: "c1 = removed rnd (length pre) c"
    by (auto split: if_splits)
  from sp more have two: "2 \<le> length (bs c)" by (cases pre; cases post) simp_all
  have i: "length pre < length (bs c)" using sp by simp
  have "nodes c ! length pre = k" using sp hit by (simp add: nodes_def nth_append)
  with i two c1 show ?thesis by blast
qed

lemma RemoveNode_err:
  assumes "RemoveNode rnd k c = (Some er, c1)"
  shows "c1 = c"
proof (cases "\<exists>b \<in> set (bs c). node (brokers c b) = k")
  case False
  then have "RemoveNode rnd k c = (Some (NodeNotFound k), c)"
    by (simp add: RemoveNode_def removeLoop_notfound)
  with assms show ?thesis by simp
next
  case True
  from first_hit [of "bs c" "\<lambda>b. node (brokers c b) = k", OF True]
  obtain pre b post where sp: "bs c = pre @ b # post" and hit: "node (brokers c b) = k"
    and miss: "\<forall>x \<in> set pre. node (brokers c x) \<noteq> k"
    by blast
  note rn = RemoveNode_found [OF sp hit miss, of rnd]
  from rn assms show ?thesis by (auto split: if_splits)
qed

lemma removed_allocated: "allocated c \<Longrightarrow> allocated (removed rnd i c)"
proof -
  assume a: "allocated c"
  have "set (butlast ((bs c)[i := last (bs c)])) \<subseteq> set (bs c)"
  proof (cases "bs c = []")
    case True
    then show ?thesis by simp
  next
    case False
    have "set (butlast ((bs c)[i := last (bs c)])) \<subseteq> set ((bs c)[i := last (bs c)])"
      by (auto dest: in_set_butlastD)
    also have "\<dots> \<subseteq> insert (last (bs c)) (set (bs c))" by (rule set_update_subset_insert)
    also have "\<dots> = set (bs c)" using False by auto
    finally show ?thesis .
  qed
  moreover have "nalloc (removed rnd i c) = nalloc c"
    by (simp add: removed_def shufflePartitionsLocked_def Let_def)
  ultimately show ?thesis using a by (auto simp: allocated_def removed_bs)
qed


lemma sint_inj32: "sint (x :: int32) = sint y \<Longrightarrow> x = y"
  by (rule signed_word_eqI)

lemma removed_distinct:
  assumes d: "distinct (nodes c)" and i: "i < length (bs c)"
  shows "distinct (nodes (removed rnd i c)) \<and>
         set (nodes (removed rnd i c)) = set (nodes c) - {nodes c ! i}"
proof -
  from i have "i < length (nodes c)" by (simp add: nodes_def)
  from swap_remove [OF d this] show ?thesis by (simp add: nodes_removed [OF i])
qed

lemma AddNode_next_id:
  assumes A: "AddNode nl rnd nodeID port c = ((nid, p, e), c')"
    and neg: "nodeID <s 0" and ne: "bs c \<noteq> []"
  shows "\<exists>m \<in> set (nodes c). (\<forall>x \<in> set (nodes c). sint x \<le> sint m) \<and> nid = m + 1"
proof -
  have nid: "nid = scanMax (brokers c) (node (brokers c (hd (bs c)))) (tl (bs c)) + 1"
    using AddNode_auto_scan [OF A neg ne] .
  from scanMax_max [OF ne, of "brokers c"] obtain b where b: "b \<in> set (bs c)"
    "scanMax (brokers c) (node (brokers c (hd (bs c)))) (tl (bs c)) = node (brokers c b)"
    "\<forall>x \<in> set (bs c). sint (node (brokers c x)) \<le> sint (node (brokers c b))"
    by blast
  have "node (brokers c b) \<in> set (nodes c)" using b(1) by (simp add: nodes_def)
  moreover have "\<forall>x \<in> set (nodes c). sint x \<le> sint (node (brokers c b))"
    using b(3) by (auto simp: nodes_def)
  moreover have "nid = node (brokers c b) + 1" using nid b(2) by simp
  ultimately show ?thesis by blast
qed

lemma AddNode_nodes:
  assumes A: "AddNode nl rnd nodeID port c = ((nid, p, e), c')" and ok: "e = None"
    and al: "allocated c"
  shows "nodes c' = nodes c @ [nid] \<and> allocated c'"
proof -
  from AddNode_added [OF A ok]
  have c': "c' = shufflePartitionsLocked rnd
            (c\<lparr>brokers := (brokers c)
                   (nalloc c := \<lparr>ln_open = True, ln_port = p, node = nid, bsIdx = length (bs c)\<rparr>),
               nalloc := Suc (nalloc c), bs := bs c @ [nalloc c], nbrokers := nbrokers c + 1\<rparr>)"
    by simp
  have fresh: "nalloc c \<notin> set (bs c)" using al by (auto simp: allocated_def)
  have "map (\<lambda>b. node (((brokers c)(nalloc c := \<lparr>ln_open = True, ln_port = p, node = nid,
              bsIdx = length (bs c)\<rparr>)) b)) (bs c) = map (\<lambda>b. node (brokers c b)) (bs c)"
    using fresh by (intro map_cong) auto
  then have "nodes c' = nodes c @ [nid]"
    by (simp add: c' nodes_def shufflePartitionsLocked_def)
  moreover have "allocated c'"
    using al by (auto simp: c' allocated_def shufflePartitionsLocked_def)
  ultimately show ?thesis by simp
qed


lemma remove_max_then_add:
  assumes d: "distinct (nodes c)"
    and R: "RemoveNode rnd m c = (None, c1)"
    and mx: "\<forall>x \<in> set (nodes c). sint x \<le> sint m"
    and neg: "nodeID <s 0"
    and A: "AddNode nl rnd' nodeID port c1 = ((nid, p, e), c2)"
  shows "sint nid \<le> sint m \<and>
         (\<exists>m' \<in> set (nodes c1). (\<forall>x \<in> set (nodes c1). sint x \<le> sint m') \<and>
                                 sint nid = sint m' + 1)"
proof -
  from RemoveNode_ok [OF R] obtain i where i: "i < length (bs c)" and at: "nodes c ! i = m"
    and two: "2 \<le> length (bs c)" and c1: "c1 = removed rnd i c"
    by blast
  from removed_distinct [OF d i, of rnd] at
  have set1: "set (nodes c1) = set (nodes c) - {m}" by (simp add: c1)
  have "length (bs c1) = length (bs c) - 1" by (simp add: c1 removed_bs)
  with two have ne: "bs c1 \<noteq> []" by auto
  from AddNode_next_id [OF A neg ne] obtain m' where m': "m' \<in> set (nodes c1)"
    "\<forall>x \<in> set (nodes c1). sint x \<le> sint m'" "nid = m' + 1"
    by blast
  from m'(1) set1 have in_c: "m' \<in> set (nodes c)" and neq: "m' \<noteq> m" by auto
  from in_c mx have le: "sint m' \<le> sint m" by blast
  with neq have lt: "sint m' < sint m" using sint_inj32 [of m' m] by force
  have "sint m < 2 ^ 31" using sint_lt [of m] by simp
  with lt have "sint m' < 2147483647" by simp
  from sint_succ32 [OF this] m'(3) have nid: "sint nid = sint m' + 1" by simp
  with lt m'(1) m'(2) show ?thesis by auto
qed

lemma RemoveNode_keeps_distinct:
  assumes al: "allocated c" and d: "distinct (nodes c)"
    and R: "RemoveNode rnd k c = (er, c3)"
  shows "allocated c3 \<and> distinct (nodes c3)"
proof (cases er)
  case None
  with R have "RemoveNode rnd k c = (None, c3)" by simp
  from RemoveNode_ok [OF this] obtain i where i: "i < length (bs c)"
    and c3: "c3 = removed rnd i c"
    by blast
  from removed_distinct [OF d i, of rnd] removed_allocated [OF al, of rnd i]
  show ?thesis by (simp add: c3)
next
  case (Some x)
  with R have "RemoveNode rnd k c = (Some x, c3)" by simp
  from RemoveNode_err [OF this] al d show ?thesis by simp
qed

lemma AddNode_keeps_distinct:
  assumes al: "allocated c" and d: "distinct (nodes c)"
    and A: "AddNode nl rnd nodeID port c = ((nid, p, e), c4)"
    and safe: "0 \<le>s nodeID \<or> (\<forall>x \<in> set (nodes c). sint x < 2147483647)"
  shows "allocated c4 \<and> distinct (nodes c4)"
proof (cases e)
  case (Some x)
  then have "e \<noteq> None" by simp
  from AddNode_failed [OF A this] al d show ?thesis by simp
next
  case None
  from AddNode_nodes [OF A None al]
  have ns: "nodes c4 = nodes c @ [nid]" and al4: "allocated c4" by simp_all
  have new: "nid \<notin> set (nodes c)"
  proof (cases "0 \<le>s nodeID")
    case True
    show ?thesis
    proof
      assume "nid \<in> set (nodes c)"
      with AddNode_explicit [OF A True]
      have "\<exists>b \<in> set (bs c). node (brokers c b) = nodeID" by (auto simp: nodes_def)
      from AddNode_exists [OF A True this] None show False by simp
    qed
  next
    case False
    then have neg: "nodeID <s 0" by (simp add: word_sless_alt word_sle_eq)
    from False safe have small: "\<forall>x \<in> set (nodes c). sint x < 2147483647" by blast
    show ?thesis
    proof (cases "bs c = []")
      case True
      then show ?thesis by (simp add: nodes_def)
    next
      case ne: False
      from AddNode_next_id [OF A neg ne] obtain m where m: "m \<in> set (nodes c)"
        "\<forall>x \<in> set (nodes c). sint x \<le> sint m" "nid = m + 1"
        by blast
      from small m(1) have "sint m < 2147483647" by blast
      from sint_succ32 [OF this] m(3) have "sint nid = sint m + 1" by simp
      with m(2) have "\<forall>x \<in> set (nodes c). sint x < sint nid" by force
      then show ?thesis by auto
    qed
  qed
  with ns d al4 show ?thesis by simp
qed

lemma NewCluster_default_distinct:
  assumes "NewCluster nl default_cfg e0 = Inr c"
  shows "allocated c \<and> distinct (nodes c)"
  using NewCluster_default [OF assms] by (simp add: allocated_def nodes_def)



text \<open>
  C10, as amended. The automatic ID is computed from the live broker list alone: in a
  state with distinct live node IDs, after \<open>RemoveNode\<close> has removed the broker with
  the largest ID \<open>m\<close>, \<open>AddNode\<close> with a negative ID assigns one more than the
  largest remaining ID, which is at most \<open>m\<close> (so an ID can be used again). The
  live node IDs stay distinct through every \<open>RemoveNode\<close> and through every
  \<open>AddNode\<close> with an explicit ID or with all live IDs below \<open>2^31 - 1\<close>, and they
  are distinct in the cluster \<open>NewCluster\<close> makes from the default configuration.
\<close>

theorem node_ids_from_live_list:
  assumes al: "allocated c" and d: "distinct (nodes c)"
  shows "(RemoveNode rnd m c = (None, c1) \<and> (\<forall>x \<in> set (nodes c). sint x \<le> sint m) \<and>
          nodeID <s 0 \<and> AddNode nl rnd' nodeID port c1 = ((nid, p, e), c2) \<longrightarrow>
            sint nid \<le> sint m \<and>
            (\<exists>m' \<in> set (nodes c1). (\<forall>x \<in> set (nodes c1). sint x \<le> sint m') \<and>
                                    sint nid = sint m' + 1)) \<and>
         (RemoveNode rnd k c = (er, c3) \<longrightarrow> allocated c3 \<and> distinct (nodes c3)) \<and>
         (AddNode nl rnd' nodeID' port' c = ((nid', p', e'), c4) \<and>
          (0 \<le>s nodeID' \<or> (\<forall>x \<in> set (nodes c). sint x < 2147483647)) \<longrightarrow>
            allocated c4 \<and> distinct (nodes c4)) \<and>
         (\<forall>nl0 e0 c0. NewCluster nl0 default_cfg e0 = Inr c0 \<longrightarrow>
            allocated (c0 :: 'a Cluster) \<and> distinct (nodes c0))"
proof (intro conjI impI allI)
  assume h: "RemoveNode rnd m c = (None, c1) \<and> (\<forall>x \<in> set (nodes c). sint x \<le> sint m) \<and>
          nodeID <s 0 \<and> AddNode nl rnd' nodeID port c1 = ((nid, p, e), c2)"
  then have R: "RemoveNode rnd m c = (None, c1)"
    and mx: "\<forall>x \<in> set (nodes c). sint x \<le> sint m"
    and neg: "nodeID <s 0"
    and A: "AddNode nl rnd' nodeID port c1 = ((nid, p, e), c2)"
    by simp_all
  from remove_max_then_add [OF d R mx neg A]
  show "sint nid \<le> sint m"
    and "\<exists>m' \<in> set (nodes c1). (\<forall>x \<in> set (nodes c1). sint x \<le> sint m') \<and>
                                sint nid = sint m' + 1"
    by simp_all
next
  assume R: "RemoveNode rnd k c = (er, c3)"
  from RemoveNode_keeps_distinct [OF al d R]
  show "allocated c3" and "distinct (nodes c3)" by simp_all
next
  assume h: "AddNode nl rnd' nodeID' port' c = ((nid', p', e'), c4) \<and>
          (0 \<le>s nodeID' \<or> (\<forall>x \<in> set (nodes c). sint x < 2147483647))"
  then have A: "AddNode nl rnd' nodeID' port' c = ((nid', p', e'), c4)"
    and safe: "0 \<le>s nodeID' \<or> (\<forall>x \<in> set (nodes c). sint x < 2147483647)"
    by simp_all
  from AddNode_keeps_distinct [OF al d A safe]
  show "allocated c4" and "distinct (nodes c4)" by simp_all
next
  fix nl0 :: "nat \<Rightarrow> int \<Rightarrow> error + nat" and e0 :: 'a and c0 :: "'a Cluster"
  assume new: "NewCluster nl0 default_cfg e0 = Inr c0"
  from NewCluster_default_distinct [OF new]
  show "allocated c0" and "distinct (nodes c0)" by simp_all
qed

theorem node_ids_from_live_list_witness:
  "allocated fresh3 \<and> distinct (nodes fresh3) \<and>
   fst (RemoveNode (\<lambda>_. 0) 2 fresh3) = None \<and>
   list_all (\<lambda>x. sint x \<le> sint (2 :: int32)) (nodes fresh3) \<and> (- 1 :: int32) <s 0 \<and>
   sint (fst (fst (AddNode listen_ok (\<lambda>_. 0) (- 1) 0 (snd (RemoveNode (\<lambda>_. 0) 2 fresh3)))))
     \<le> sint (2 :: int32) \<and>
   fst (fst (AddNode listen_ok (\<lambda>_. 0) (- 1) 0 (snd (RemoveNode (\<lambda>_. 0) 2 fresh3)))) = 2 \<and>
   distinct (nodes (snd (RemoveNode (\<lambda>_. 0) 2 fresh3)))"
proof -
  let ?R = "RemoveNode (\<lambda>_. 0) 2 fresh3"
  let ?A = "AddNode listen_ok (\<lambda>_. 0) (- 1) 0 (snd ?R)"
  have al: "allocated fresh3" by (simp add: allocated_def fresh3_def)
  have d: "distinct (nodes fresh3)" by (simp add: nodes_def fresh3_def)
  have R: "?R = (None, snd ?R)"
    by (simp add: RemoveNode_def fresh3_def shufflePartitionsLocked_def Let_def)
  have mx: "\<forall>x \<in> set (nodes fresh3). sint x \<le> sint (2 :: int32)"
    by (simp add: nodes_def fresh3_def)
  have neg: "(- 1 :: int32) <s 0" by (simp add: word_sless_alt)
  have A: "?A = ((fst (fst ?A), fst (snd (fst ?A)), snd (snd (fst ?A))), snd ?A)" by simp
  have ev: "fst (fst ?A) = 2"
    by (simp add: AddNode_def RemoveNode_def fresh3_def shufflePartitionsLocked_def Let_def
        listen_ok_def bound_port_def word_sless_alt word_sle_eq)
  note t = node_ids_from_live_list [OF al d, of "\<lambda>_. 0" 2 "snd ?R" "- 1" listen_ok "\<lambda>_. 0" 0
      "fst (fst ?A)" "fst (snd (fst ?A))" "snd (snd (fst ?A))" "snd ?A" 2 "fst ?R" "snd ?R"]
  from t R mx neg A have le: "sint (fst (fst ?A)) \<le> sint (2 :: int32)" by blast
  have R2: "?R = (fst ?R, snd ?R)" by simp
  from t R2 have "distinct (nodes (snd ?R))" by blast
  moreover from R have "fst ?R = None" by (simp add: prod_eq_iff)
  moreover have "list_all (\<lambda>x. sint x \<le> sint (2 :: int32)) (nodes fresh3)"
    using mx by (simp add: list_all_iff)
  ultimately show ?thesis using al d neg le ev by simp
qed


text \<open>
  C10 as stated fails in its clause that the live node IDs are unique at any instant:
  from the fresh cluster, \<open>AddNode(2147483647, 0)\<close> and two calls \<open>AddNode(-1, 0)\<close>
  leave two live brokers with the ID \<open>-2147483648\<close>.
\<close>

theorem node_ids_collide:
  "bs wrapped2 = [0, 1, 2, 3, 4, 5] \<and>
   node (brokers wrapped2 4) = - 2147483648 \<and> node (brokers wrapped2 5) = - 2147483648 \<and>
   \<not> distinct (nodes wrapped2)"
  by (simp add: nodes_def wrapped2_def wrapped_def maxed_def AddNode_def fresh3_def listen_ok_def
      bound_port_def
      shufflePartitionsLocked_def Let_def no_broker_def word_sless_alt word_sle_eq)

subsection \<open>The control registry\<close>

text \<open>The definitions that evaluate the registry on the example functions.\<close>

lemmas reg_defs = tryControl_def fns_def Control_def ControlKey_def KeepControl_def callControl_def
  Let_def fresh3_def keeper_def once_def pass_def silent_def adder_def metaReq_def


lemma perform_fns: "\<exists>extra. fns (control (perform a c)) k = fns (control c) k @ extra"
  by (cases a) (simp_all add: Control_def ControlKey_def KeepControl_def fns_def)

lemma fold_perform_fns: "\<exists>extra. fns (control (fold perform acts c)) k = fns (control c) k @ extra"
proof (induction acts arbitrary: c)
  case Nil
  then show ?case by simp
next
  case (Cons a acts)
  from perform_fns [of a c k] obtain e1
    where e1: "fns (control (perform a c)) k = fns (control c) k @ e1" by blast
  from Cons.IH [of "perform a c"] obtain e2
    where "fns (control (fold perform acts (perform a c))) k = fns (control (perform a c)) k @ e2"
    by blast
  with e1 show ?case by simp
qed

lemma perform_frame:
  "watch (perform a c) = watch c \<and> tps (perform a c) = tps c \<and> bs (perform a c) = bs c \<and>
   brokers (perform a c) = brokers c \<and> nalloc (perform a c) = nalloc c \<and>
   nbrokers (perform a c) = nbrokers c \<and> env (perform a c) = env c"
  by (cases a) (simp_all add: Control_def ControlKey_def KeepControl_def)

lemma fold_perform_frame:
  "watch (fold perform acts c) = watch c \<and> tps (fold perform acts c) = tps c \<and>
   bs (fold perform acts c) = bs c \<and> brokers (fold perform acts c) = brokers c \<and>
   nalloc (fold perform acts c) = nalloc c \<and> nbrokers (fold perform acts c) = nbrokers c \<and>
   env (fold perform acts c) = env c"
  by (induction acts arbitrary: c) (simp_all add: perform_frame)

text \<open>The result of a call and its effect, in one equation.\<close>

lemma callControl_eq:
  "callControl key req fn c =
     (let c1 = c\<lparr>keepCurrentControl := False\<rparr>;
          out = body fn (env c) req;
          c2 = fold perform (fst (snd out)) (c1\<lparr>env := fst out\<rparr>);
          r = snd (snd out)
      in (r, if handled r
             then (if keepCurrentControl c2
                   then c2\<lparr>keepCurrentControl := False,
                           control := (control c2)(key \<mapsto> fns (control c2) key @ [fn])\<rparr>
                   else c2\<lparr>keepCurrentControl := False\<rparr>)
             else c2))"
  by (simp add: callControl_def Let_def split: prod.splits)

lemma callControl_result:
  "fst (callControl key req fn c) = snd (snd (body fn (env c) req))"
  by (simp add: callControl_eq Let_def)

lemma callControl_fns:
  "\<exists>extra. fns (control (snd (callControl key req fn c))) k = fns (control c) k @ extra"
proof -
  let ?out = "body fn (env c) req"
  let ?c2 = "fold perform (fst (snd ?out)) (c\<lparr>keepCurrentControl := False, env := fst ?out\<rparr>)"
  from fold_perform_fns [of "fst (snd ?out)" "c\<lparr>keepCurrentControl := False, env := fst ?out\<rparr>" k]
  obtain e1 where e1: "fns (control ?c2) k = fns (control c) k @ e1" by auto
  show ?thesis
    using e1 by (auto simp: callControl_eq Let_def fns_def)
qed

lemma callControl_frame:
  "watch (snd (callControl key req fn c)) = watch c \<and>
   tps (snd (callControl key req fn c)) = tps c \<and>
   bs (snd (callControl key req fn c)) = bs c \<and>
   brokers (snd (callControl key req fn c)) = brokers c \<and>
   nalloc (snd (callControl key req fn c)) = nalloc c \<and>
   nbrokers (snd (callControl key req fn c)) = nbrokers c"
  by (simp add: callControl_eq Let_def fold_perform_frame)


lemma rangeFns_Cons:
  "rangeFns key req keyFns (fn # rest) i r c =
     (if handled (fst (callControl key req fn c))
      then (fst (callControl key req fn c),
            (snd (callControl key req fn c))
              \<lparr>control := (control (snd (callControl key req fn c)))
                   (key \<mapsto> take i keyFns @ drop (i + 1) keyFns)\<rparr>,
            [(fn, True)])
      else (fst (rangeFns key req keyFns rest (i + 1) (fst (callControl key req fn c))
                   (snd (callControl key req fn c))),
            fst (snd (rangeFns key req keyFns rest (i + 1) (fst (callControl key req fn c))
                   (snd (callControl key req fn c)))),
            (fn, False) # snd (snd (rangeFns key req keyFns rest (i + 1)
                   (fst (callControl key req fn c)) (snd (callControl key req fn c))))))"
  by (simp add: Let_def split: prod.splits)

lemma rangeFns_calls:
  assumes "rangeFns key req keyFns rest i r c = (r', c', calls)" and "\<not> handled r"
  shows "(\<exists>n \<le> length rest. map fst calls = take n rest) \<and>
         (\<forall>x \<in> set (butlast calls). \<not> snd x) \<and>
         (handled r' \<longleftrightarrow> calls \<noteq> [] \<and> snd (last calls)) \<and>
         (\<not> handled r' \<longrightarrow> map fst calls = rest)"
  using assms
proof (induction rest arbitrary: i r c r' c' calls)
  case Nil
  then show ?case by simp
next
  case (Cons fn rest)
  let ?r1 = "fst (callControl key req fn c)"
  let ?c1 = "snd (callControl key req fn c)"
  show ?case
  proof (cases "handled ?r1")
    case True
    with Cons.prems(1) have "r' = ?r1" "calls = [(fn, True)]"
      by (simp_all add: rangeFns_Cons del: rangeFns.simps)
    with True show ?thesis by (auto intro: exI [of _ 1])
  next
    case False
    obtain r2 c2 calls2 where rec: "rangeFns key req keyFns rest (i + 1) ?r1 ?c1 = (r2, c2, calls2)"
      by (cases "rangeFns key req keyFns rest (i + 1) ?r1 ?c1") auto
    with False Cons.prems(1) have eq: "r' = r2" "calls = (fn, False) # calls2"
      by (simp_all add: rangeFns_Cons del: rangeFns.simps)
    from Cons.IH [OF rec False] have ih:
      "\<exists>n \<le> length rest. map fst calls2 = take n rest"
      "\<forall>x \<in> set (butlast calls2). \<not> snd x"
      "handled r2 \<longleftrightarrow> calls2 \<noteq> [] \<and> snd (last calls2)"
      "\<not> handled r2 \<longrightarrow> map fst calls2 = rest"
      by simp_all
    from ih(1) obtain n where n: "n \<le> length rest" "map fst calls2 = take n rest" by blast
    then have "Suc n \<le> length (fn # rest) \<and> map fst calls = take (Suc n) (fn # rest)"
      by (simp add: eq)
    then have p1: "\<exists>n \<le> length (fn # rest). map fst calls = take n (fn # rest)" by blast
    have p2: "\<forall>x \<in> set (butlast calls). \<not> snd x"
      using ih(2) by (auto simp: eq)
    have p3: "handled r' \<longleftrightarrow> calls \<noteq> [] \<and> snd (last calls)"
      using ih(3) by (auto simp: eq)
    have p4: "\<not> handled r' \<longrightarrow> map fst calls = fn # rest"
      using ih(4) by (simp add: eq)
    from p1 p2 p3 p4 show ?thesis by blast
  qed
qed

lemma rangeFns_prefix:
  assumes "rangeFns key req keyFns rest i r c = (r', c', calls)" and "\<not> handled r"
  shows "\<exists>n \<le> length rest. map fst calls = take n rest"
  using rangeFns_calls [OF assms] by (elim conjE)

lemma rangeFns_butlast:
  assumes "rangeFns key req keyFns rest i r c = (r', c', calls)" and "\<not> handled r"
  shows "\<forall>x \<in> set (butlast calls). \<not> snd x"
  using rangeFns_calls [OF assms] by (elim conjE)

lemma rangeFns_last:
  assumes "rangeFns key req keyFns rest i r c = (r', c', calls)" and "\<not> handled r"
  shows "handled r' \<longleftrightarrow> calls \<noteq> [] \<and> snd (last calls)"
  using rangeFns_calls [OF assms] by (elim conjE)

lemma rangeFns_all:
  assumes "rangeFns key req keyFns rest i r c = (r', c', calls)" and "\<not> handled r"
    and "\<not> handled r'"
  shows "map fst calls = rest"
  using rangeFns_calls [OF assms(1,2)] assms(3) by (elim conjE) (rule mp)

lemma rangeFns_handled_list:
  assumes "rangeFns key req keyFns rest i r c = (r', c', calls)" and "\<not> handled r"
    and "handled r'"
  shows "calls \<noteq> [] \<and>
         control c' key = Some (take (i + length calls - 1) keyFns @ drop (i + length calls) keyFns)"
  using assms
proof (induction rest arbitrary: i r c r' c' calls)
  case Nil
  then show ?case by simp
next
  case (Cons fn rest)
  let ?r1 = "fst (callControl key req fn c)"
  let ?c1 = "snd (callControl key req fn c)"
  show ?case
  proof (cases "handled ?r1")
    case True
    with Cons.prems(1) have "calls = [(fn, True)]"
      "c' = ?c1\<lparr>control := (control ?c1)(key \<mapsto> take i keyFns @ drop (i + 1) keyFns)\<rparr>"
      by (simp_all add: rangeFns_Cons del: rangeFns.simps)
    then show ?thesis by simp
  next
    case False
    obtain r2 c2 calls2 where rec: "rangeFns key req keyFns rest (i + 1) ?r1 ?c1 = (r2, c2, calls2)"
      by (cases "rangeFns key req keyFns rest (i + 1) ?r1 ?c1") auto
    with False Cons.prems(1) have eq: "r' = r2" "c' = c2" "calls = (fn, False) # calls2"
      by (simp_all add: rangeFns_Cons del: rangeFns.simps)
    from Cons.prems(3) eq have "handled r2" by simp
    from Cons.IH [OF rec False this] show ?thesis by (simp add: eq)
  qed
qed

lemma rangeFns_unhandled_fns:
  assumes "rangeFns key req keyFns rest i r c = (r', c', calls)" and "\<not> handled r'"
  shows "\<exists>extra. fns (control c') k = fns (control c) k @ extra"
  using assms
proof (induction rest arbitrary: i r c r' c' calls)
  case Nil
  then show ?case by simp
next
  case (Cons fn rest)
  let ?r1 = "fst (callControl key req fn c)"
  let ?c1 = "snd (callControl key req fn c)"
  show ?case
  proof (cases "handled ?r1")
    case True
    with Cons.prems(1) have "r' = ?r1" by (simp add: rangeFns_Cons del: rangeFns.simps)
    with True Cons.prems(2) show ?thesis by simp
  next
    case False
    obtain r2 c2 calls2 where rec: "rangeFns key req keyFns rest (i + 1) ?r1 ?c1 = (r2, c2, calls2)"
      by (cases "rangeFns key req keyFns rest (i + 1) ?r1 ?c1") auto
    with False Cons.prems(1) have eq: "r' = r2" "c' = c2"
      by (simp_all add: rangeFns_Cons del: rangeFns.simps)
    from Cons.prems(2) eq have "\<not> handled r2" by simp
    from Cons.IH [OF rec this] obtain e2
      where e2: "fns (control c2) k = fns (control ?c1) k @ e2" by blast
    from callControl_fns [of key req fn c k] obtain e1
      where "fns (control ?c1) k = fns (control c) k @ e1" by blast
    with e2 eq show ?thesis by simp
  qed
qed

lemma rangeFns_frame:
  assumes "rangeFns key req keyFns rest i r c = (r', c', calls)"
  shows "watch c' = watch c \<and> tps c' = tps c \<and> bs c' = bs c \<and> brokers c' = brokers c \<and>
         nalloc c' = nalloc c \<and> nbrokers c' = nbrokers c"
  using assms
proof (induction rest arbitrary: i r c r' c' calls)
  case Nil
  then show ?case by simp
next
  case (Cons fn rest)
  let ?r1 = "fst (callControl key req fn c)"
  let ?c1 = "snd (callControl key req fn c)"
  note fr = callControl_frame [of key req fn c]
  show ?case
  proof (cases "handled ?r1")
    case True
    with Cons.prems(1)
    have "c' = ?c1\<lparr>control := (control ?c1)(key \<mapsto> take i keyFns @ drop (i + 1) keyFns)\<rparr>"
      by (simp add: rangeFns_Cons del: rangeFns.simps)
    with fr show ?thesis by simp
  next
    case False
    obtain r2 c2 calls2 where rec: "rangeFns key req keyFns rest (i + 1) ?r1 ?c1 = (r2, c2, calls2)"
      by (cases "rangeFns key req keyFns rest (i + 1) ?r1 ?c1") auto
    with False Cons.prems(1) have eq: "c' = c2" by (simp add: rangeFns_Cons del: rangeFns.simps)
    from Cons.IH [OF rec] fr eq show ?thesis by simp
  qed
qed


lemma none_handled:
  assumes "\<forall>x \<in> set (butlast xs). \<not> snd x" and "\<not> (xs \<noteq> [] \<and> snd (last xs))"
  shows "\<forall>x \<in> set xs. \<not> snd x"
  using assms by (cases xs rule: rev_cases) simp_all

lemma tryControl_empty:
  "dom (control c) = {} \<Longrightarrow> tryControl req c = ((None, None, False), c, [])"
  by (simp add: tryControl_def)

lemma tryControl_first:
  assumes "dom (control c) \<noteq> {}"
    and "rangeFns (Key req) req (fns (control c) (Key req)) (fns (control c) (Key req)) 0
           (None, None, False) c = (r1, c1, calls1)"
    and "handled r1"
  shows "tryControl req c = (r1, c1, calls1)"
  using assms by (simp add: tryControl_def Let_def)

lemma tryControl_second:
  assumes "dom (control c) \<noteq> {}"
    and "rangeFns (Key req) req (fns (control c) (Key req)) (fns (control c) (Key req)) 0
           (None, None, False) c = (r1, c1, calls1)"
    and "\<not> handled r1"
    and "rangeFns (- 1) req (fns (control c1) (- 1)) (fns (control c1) (- 1)) 0 r1 c1
           = (r2, c2, calls2)"
  shows "tryControl req c = (r2, c2, calls1 @ calls2)"
  using assms by (simp add: tryControl_def Let_def)

lemma fns_empty: "dom m = {} \<Longrightarrow> fns m k = []"
  by (simp add: fns_def dom_def)

lemma butlast_append_unhandled:
  assumes "\<forall>x \<in> set xs. \<not> snd x" and "\<forall>x \<in> set (butlast ys). \<not> snd x"
  shows "\<forall>x \<in> set (butlast (xs @ ys)). \<not> snd x"
proof (cases "ys = []")
  case True
  with assms(1) show ?thesis by (auto dest: in_set_butlastD)
next
  case False
  then have "butlast (xs @ ys) = xs @ butlast ys" by (simp add: butlast_append)
  with assms show ?thesis by auto
qed

lemma last_append_handled:
  assumes "\<forall>x \<in> set xs. \<not> snd x"
  shows "(xs @ ys \<noteq> [] \<and> snd (last (xs @ ys))) \<longleftrightarrow> (ys \<noteq> [] \<and> snd (last ys))"
proof (cases "ys = []")
  case True
  show ?thesis
  proof (cases "xs = []")
    case True
    with \<open>ys = []\<close> show ?thesis by simp
  next
    case False
    then have "last xs \<in> set xs" by simp
    with assms have "\<not> snd (last xs)" by blast
    with \<open>ys = []\<close> show ?thesis by simp
  qed
next
  case False
  then show ?thesis by simp
qed

lemma tryControl_calls:
  assumes T: "tryControl req c = (r, c', calls)"
  shows "\<exists>extra n.
           map fst calls = take n (fns (control c) (Key req) @ fns (control c) (- 1) @ extra) \<and>
           (\<not> handled r \<longrightarrow>
              map fst calls = fns (control c) (Key req) @ fns (control c) (- 1) @ extra) \<and>
           (\<forall>x \<in> set (butlast calls). \<not> snd x) \<and>
           (handled r \<longleftrightarrow> calls \<noteq> [] \<and> snd (last calls))"
proof (cases "dom (control c) = {}")
  case True
  with T have "r = (None, None, False)" "calls = []" by (simp_all add: tryControl_empty)
  with True have a: "map fst calls = take 0 (fns (control c) (Key req) @ fns (control c) (- 1) @ [])"
    and b: "\<not> handled r \<longrightarrow>
              map fst calls = fns (control c) (Key req) @ fns (control c) (- 1) @ []"
    and c: "\<forall>x \<in> set (butlast calls). \<not> snd x"
    and d: "handled r \<longleftrightarrow> calls \<noteq> [] \<and> snd (last calls)"
    by (simp_all add: fns_empty)
  show ?thesis
    apply (rule exI [of _ "[]"])
    apply (rule exI [of _ 0])
    apply (intro conjI)
       apply (rule a)
      apply (rule b)
     apply (rule c)
    apply (rule d)
    done
next
  case False
  let ?keyFns = "fns (control c) (Key req)"
  obtain r1 c1 calls1 where L1:
    "rangeFns (Key req) req ?keyFns ?keyFns 0 (None, None, False) c = (r1, c1, calls1)"
    by (cases "rangeFns (Key req) req ?keyFns ?keyFns 0 (None, None, False) c") auto
  have nh: "\<not> handled (None, None, False)" by simp
  note bl1 = rangeFns_butlast [OF L1 nh]
  note la1 = rangeFns_last [OF L1 nh]
  show ?thesis
  proof (cases "handled r1")
    case True
    from tryControl_first [OF False L1 True] T have eq: "r = r1" "calls = calls1" by simp_all
    from rangeFns_prefix [OF L1 nh] obtain n
      where n: "n \<le> length ?keyFns" "map fst calls1 = take n ?keyFns" by blast
    then have a: "map fst calls = take n (?keyFns @ fns (control c) (- 1) @ [])"
      by (simp add: eq)
    have c: "\<forall>x \<in> set (butlast calls). \<not> snd x" unfolding eq by (rule bl1)
    have d: "handled r \<longleftrightarrow> calls \<noteq> [] \<and> snd (last calls)" unfolding eq by (rule la1)
    have "handled r" using True by (simp add: eq)
    then have b: "\<not> handled r \<longrightarrow> map fst calls = ?keyFns @ fns (control c) (- 1) @ []"
      by simp
    show ?thesis
      apply (rule exI [of _ "[]"])
      apply (rule exI [of _ n])
      apply (intro conjI)
         apply (rule a)
        apply (rule b)
       apply (rule c)
      apply (rule d)
      done
  next
    case nh1: False
    let ?anyFns = "fns (control c1) (- 1)"
    obtain r2 c2 calls2 where L2:
      "rangeFns (- 1) req ?anyFns ?anyFns 0 r1 c1 = (r2, c2, calls2)"
      by (cases "rangeFns (- 1) req ?anyFns ?anyFns 0 r1 c1") auto
    from tryControl_second [OF False L1 nh1 L2] T have eq: "r = r2" "calls = calls1 @ calls2"
      by simp_all
    from rangeFns_unhandled_fns [OF L1 nh1, of "- 1"] obtain extra
      where extra: "?anyFns = fns (control c) (- 1) @ extra" by blast
    have m1: "map fst calls1 = ?keyFns" by (rule rangeFns_all [OF L1 nh nh1])
    from la1 nh1 have "\<not> (calls1 \<noteq> [] \<and> snd (last calls1))" by blast
    with bl1 have u1: "\<forall>x \<in> set calls1. \<not> snd x" by (rule none_handled)
    from rangeFns_prefix [OF L2 nh1] obtain n
      where n: "n \<le> length ?anyFns" "map fst calls2 = take n ?anyFns" by blast
    have "map fst calls = ?keyFns @ take n ?anyFns" unfolding eq using m1 n(2) by simp
    also have "\<dots> = take (length ?keyFns + n) (?keyFns @ ?anyFns)" by simp
    finally have a: "map fst calls =
        take (length ?keyFns + n) (?keyFns @ fns (control c) (- 1) @ extra)"
      unfolding extra .
    have b: "\<not> handled r \<longrightarrow> map fst calls = ?keyFns @ fns (control c) (- 1) @ extra"
    proof
      assume "\<not> handled r"
      then have "\<not> handled r2" by (simp add: eq)
      from rangeFns_all [OF L2 nh1 this] have "map fst calls2 = ?anyFns" .
      with m1 have "map fst calls = ?keyFns @ ?anyFns" unfolding eq by simp
      then show "map fst calls = ?keyFns @ fns (control c) (- 1) @ extra" unfolding extra .
    qed
    have c: "\<forall>x \<in> set (butlast calls). \<not> snd x"
      unfolding eq using u1 rangeFns_butlast [OF L2 nh1] by (rule butlast_append_unhandled)
    have d: "handled r \<longleftrightarrow> calls \<noteq> [] \<and> snd (last calls)"
      unfolding eq using rangeFns_last [OF L2 nh1] last_append_handled [OF u1, of calls2]
      by blast
    show ?thesis
      apply (rule exI [of _ extra])
      apply (rule exI [of _ "length ?keyFns + n"])
      apply (intro conjI)
         apply (rule a)
        apply (rule b)
       apply (rule c)
      apply (rule d)
      done
  qed
qed



lemma handled_is_last:
  assumes "\<forall>x \<in> set (butlast xs). \<not> snd x" and "j < length xs" and "snd (xs ! j)"
  shows "Suc j = length xs"
proof (rule ccontr)
  assume "Suc j \<noteq> length xs"
  with assms(2) have lt: "j < length (butlast xs)" by simp
  then have "butlast xs ! j \<in> set (butlast xs)" by (rule nth_mem)
  moreover have "butlast xs ! j = xs ! j" using lt by (simp add: nth_butlast)
  ultimately show False using assms(1,3) by auto
qed

lemma take_length_eq:
  assumes "xs = take n ys"
  shows "xs = take (length xs) ys"
proof -
  have "length xs = min (length ys) n" using assms by simp
  then show ?thesis using assms by (cases "n \<le> length ys") (simp_all add: min_def)
qed

lemma ControlKey_appends: "fns (control (ControlKey key fn c)) key = fns (control c) key @ [fn]"
  by (simp add: ControlKey_def fns_def)

lemma Control_appends: "fns (control (Control fn c)) (- 1) = fns (control c) (- 1) @ [fn]"
  by (simp add: Control_def fns_def)


lemma callAll_Cons:
  "callAll req (kf # rest) c =
     (fst (callControl (fst kf) req (snd kf) c) #
        fst (callAll req rest (snd (callControl (fst kf) req (snd kf) c))),
      snd (callAll req rest (snd (callControl (fst kf) req (snd kf) c))))"
  by (simp add: Let_def split: prod.splits)

lemma callAll_length: "length (fst (callAll req kfs c)) = length kfs"
  by (induction kfs arbitrary: c) (simp_all add: callAll_Cons del: callAll.simps(2))

lemma callAll_append:
  "callAll req (xs @ ys) c =
     (fst (callAll req xs c) @ fst (callAll req ys (snd (callAll req xs c))),
      snd (callAll req ys (snd (callAll req xs c))))"
  by (induction xs arbitrary: c) (simp_all add: callAll_Cons del: callAll.simps(2))

lemma callAll_nth:
  "j < length kfs \<Longrightarrow>
   fst (callAll req kfs c) ! j =
     fst (callControl (fst (kfs ! j)) req (snd (kfs ! j)) (snd (callAll req (take j kfs) c)))"
proof (induction kfs arbitrary: c j)
  case Nil
  then show ?case by simp
next
  case (Cons kf kfs)
  show ?case
  proof (cases j)
    case 0
    then show ?thesis by (simp add: callAll_Cons del: callAll.simps(2))
  next
    case (Suc m)
    with Cons.prems have "m < length kfs" by simp
    from Cons.IH [OF this] Suc show ?thesis by (simp add: callAll_Cons del: callAll.simps(2))
  qed
qed

lemma rangeFns_callAll:
  assumes "rangeFns key req keyFns rest i r c = (r', c', calls)"
  shows "map snd calls = map handled (fst (callAll req (map (Pair key) (map fst calls)) c)) \<and>
         r' = (if calls = [] then r
               else last (fst (callAll req (map (Pair key) (map fst calls)) c))) \<and>
         c'\<lparr>control := control (snd (callAll req (map (Pair key) (map fst calls)) c))\<rparr> =
           snd (callAll req (map (Pair key) (map fst calls)) c) \<and>
         (\<not> handled r' \<longrightarrow> c' = snd (callAll req (map (Pair key) (map fst calls)) c))"
  using assms
proof (induction rest arbitrary: i r c r' c' calls)
  case Nil
  then show ?case by simp
next
  case (Cons fn rest)
  let ?r1 = "fst (callControl key req fn c)"
  let ?c1 = "snd (callControl key req fn c)"
  show ?case
  proof (cases "handled ?r1")
    case True
    with Cons.prems have eq: "r' = ?r1" "calls = [(fn, True)]"
      "c' = ?c1\<lparr>control := (control ?c1)(key \<mapsto> take i keyFns @ drop (i + 1) keyFns)\<rparr>"
      by (simp_all add: rangeFns_Cons del: rangeFns.simps)
    with True show ?thesis by (simp add: callAll_Cons del: callAll.simps(2))
  next
    case False
    obtain r2 c2 calls2 where rec: "rangeFns key req keyFns rest (i + 1) ?r1 ?c1 = (r2, c2, calls2)"
      by (cases "rangeFns key req keyFns rest (i + 1) ?r1 ?c1") auto
    with False Cons.prems have eq: "r' = r2" "c' = c2" "calls = (fn, False) # calls2"
      by (simp_all add: rangeFns_Cons del: rangeFns.simps)
    let ?A = "callAll req (map (Pair key) (map fst calls2)) ?c1"
    from Cons.IH [OF rec] have ih:
      "map snd calls2 = map handled (fst ?A)"
      "r2 = (if calls2 = [] then ?r1 else last (fst ?A))"
      "c2\<lparr>control := control (snd ?A)\<rparr> = snd ?A"
      "\<not> handled r2 \<longrightarrow> c2 = snd ?A"
      by simp_all
    have len: "length (fst ?A) = length calls2" by (simp add: callAll_length)
    then have ne: "fst ?A = [] \<longleftrightarrow> calls2 = []" by (metis length_0_conv)
    have A: "callAll req (map (Pair key) (map fst calls)) c = (?r1 # fst ?A, snd ?A)"
      by (simp add: eq callAll_Cons del: callAll.simps(2))
    have p1: "map snd calls = map handled (fst (callAll req (map (Pair key) (map fst calls)) c))"
      unfolding A using ih(1) False by (simp add: eq)
    have p2: "r' = (if calls = [] then r
               else last (fst (callAll req (map (Pair key) (map fst calls)) c)))"
      unfolding A using ih(2) ne by (simp add: eq)
    have p3: "c'\<lparr>control := control (snd (callAll req (map (Pair key) (map fst calls)) c))\<rparr> =
           snd (callAll req (map (Pair key) (map fst calls)) c)"
      unfolding A using ih(3) by (simp add: eq)
    have p4: "\<not> handled r' \<longrightarrow> c' = snd (callAll req (map (Pair key) (map fst calls)) c)"
      unfolding A using ih(4) by (simp add: eq)
    from p1 p2 p3 p4 show ?thesis by (intro conjI)
  qed
qed

lemma chain_snd: "map snd (chain req c calls) = map fst calls"
proof -
  have m: "\<And>k xs. map snd (map (Pair k) xs) = (xs :: 'b list)" by (simp add: comp_def)
  show ?thesis by (simp only: chain_def Let_def map_append m append_take_drop_id)
qed

lemma chain_length: "length (chain req c calls) = length calls"
  using arg_cong [OF chain_snd [of req c calls], of length] by simp

lemma tryControl_callAll:
  assumes T: "tryControl req c = (r, c', calls)"
  shows "map snd calls = map handled (fst (callAll req (chain req c calls) c)) \<and>
         r = (if calls = [] then (None, None, False)
              else last (fst (callAll req (chain req c calls) c))) \<and>
         c'\<lparr>control := control (snd (callAll req (chain req c calls) c))\<rparr> =
           snd (callAll req (chain req c calls) c) \<and>
         (\<not> handled r \<longrightarrow> c' = snd (callAll req (chain req c calls) c))"
proof (cases "dom (control c) = {}")
  case True
  with T have "r = (None, None, False)" "calls = []" "c' = c" by (simp_all add: tryControl_empty)
  then show ?thesis by (simp add: chain_def)
next
  case False
  let ?keyFns = "fns (control c) (Key req)"
  obtain r1 c1 calls1 where L1:
    "rangeFns (Key req) req ?keyFns ?keyFns 0 (None, None, False) c = (r1, c1, calls1)"
    by (cases "rangeFns (Key req) req ?keyFns ?keyFns 0 (None, None, False) c") auto
  have nh: "\<not> handled (None, None, False)" by simp
  let ?A1 = "callAll req (map (Pair (Key req)) (map fst calls1)) c"
  from rangeFns_callAll [OF L1] have a1:
    "map snd calls1 = map handled (fst ?A1)"
    "r1 = (if calls1 = [] then (None, None, False) else last (fst ?A1))"
    "c1\<lparr>control := control (snd ?A1)\<rparr> = snd ?A1"
    "\<not> handled r1 \<longrightarrow> c1 = snd ?A1"
    by simp_all
  from rangeFns_prefix [OF L1 nh] obtain n
    where n: "n \<le> length ?keyFns" "map fst calls1 = take n ?keyFns" by blast
  have le: "length calls1 \<le> length ?keyFns"
    using arg_cong [OF n(2), of length] n(1) by simp
  show ?thesis
  proof (cases "handled r1")
    case True
    from tryControl_first [OF False L1 True] T
    have eq: "r = r1" "c' = c1" "calls = calls1" by simp_all
    have ch: "chain req c calls = map (Pair (Key req)) (map fst calls1)"
      using le by (simp add: chain_def eq)
    show ?thesis unfolding ch unfolding eq using a1 by (intro conjI)
  next
    case nh1: False
    let ?anyFns = "fns (control c1) (- 1)"
    obtain r2 c2 calls2 where L2:
      "rangeFns (- 1) req ?anyFns ?anyFns 0 r1 c1 = (r2, c2, calls2)"
      by (cases "rangeFns (- 1) req ?anyFns ?anyFns 0 r1 c1") auto
    from tryControl_second [OF False L1 nh1 L2] T
    have eq: "r = r2" "c' = c2" "calls = calls1 @ calls2" by simp_all
    have m1: "map fst calls1 = ?keyFns" by (rule rangeFns_all [OF L1 nh nh1])
    have l1: "length calls1 = length ?keyFns" using arg_cong [OF m1, of length] by simp
    have ch: "chain req c calls =
        map (Pair (Key req)) (map fst calls1) @ map (Pair (- 1)) (map fst calls2)"
      by (simp add: chain_def eq l1 [symmetric])
    from a1(4) nh1 have c1: "c1 = snd ?A1" by simp
    let ?A2 = "callAll req (map (Pair (- 1)) (map fst calls2)) c1"
    from rangeFns_callAll [OF L2] have a2:
      "map snd calls2 = map handled (fst ?A2)"
      "r2 = (if calls2 = [] then r1 else last (fst ?A2))"
      "c2\<lparr>control := control (snd ?A2)\<rparr> = snd ?A2"
      "\<not> handled r2 \<longrightarrow> c2 = snd ?A2"
      by simp_all
    have A: "callAll req (chain req c calls) c = (fst ?A1 @ fst ?A2, snd ?A2)"
      unfolding ch callAll_append c1 [symmetric] by (rule refl)
    have len2: "length (fst ?A2) = length calls2" by (simp add: callAll_length)
    then have ne2: "fst ?A2 = [] \<longleftrightarrow> calls2 = []" by (metis length_0_conv)
    have len1: "length (fst ?A1) = length calls1" by (simp add: callAll_length)
    then have ne1: "fst ?A1 = [] \<longleftrightarrow> calls1 = []" by (metis length_0_conv)
    have p1: "map snd calls = map handled (fst (callAll req (chain req c calls) c))"
      unfolding A using a1(1) a2(1) by (simp add: eq)
    have p2: "r = (if calls = [] then (None, None, False)
              else last (fst (callAll req (chain req c calls) c)))"
      unfolding A using a1(2) a2(2) ne1 ne2 by (simp add: eq)
    have p3: "c'\<lparr>control := control (snd (callAll req (chain req c calls) c))\<rparr> =
           snd (callAll req (chain req c calls) c)"
      unfolding A using a2(3) by (simp add: eq)
    have p4: "\<not> handled r \<longrightarrow> c' = snd (callAll req (chain req c calls) c)"
      unfolding A using a2(4) by (simp add: eq)
    from p1 p2 p3 p4 show ?thesis by (intro conjI)
  qed
qed

lemma tryControl_entry:
  assumes j: "j < length calls"
  shows "fst (callAll req (chain req c calls) c) ! j =
         snd (snd (body (fst (calls ! j))
                     (env (snd (callAll req (take j (chain req c calls)) c))) req))"
proof -
  from j have jc: "j < length (chain req c calls)" by (simp add: chain_length)
  have "snd (chain req c calls ! j) = map snd (chain req c calls) ! j"
    using jc by simp
  also have "\<dots> = fst (calls ! j)" using j by (simp add: chain_snd)
  finally have s: "snd (chain req c calls ! j) = fst (calls ! j)" .
  show ?thesis
    unfolding callAll_nth [OF jc] callControl_result s ..
qed


lemma callAll_fns:
  "\<exists>extra. fns (control (snd (callAll req kfs c))) k = fns (control c) k @ extra"
proof (induction kfs arbitrary: c)
  case Nil
  then show ?case by simp
next
  case (Cons kf kfs)
  let ?c1 = "snd (callControl (fst kf) req (snd kf) c)"
  from callControl_fns [of "fst kf" req "snd kf" c k] obtain e1
    where e1: "fns (control ?c1) k = fns (control c) k @ e1" by blast
  from Cons.IH [of ?c1] obtain e2
    where "fns (control (snd (callAll req kfs ?c1))) k = fns (control ?c1) k @ e2" by blast
  with e1 have "fns (control (snd (callAll req (kf # kfs) c))) k = fns (control c) k @ (e1 @ e2)"
    by (simp add: callAll_Cons del: callAll.simps(2))
  then show ?case by (rule exI)
qed

lemma tryControl_exact:
  assumes T: "tryControl req c = (r, c', calls)"
    and W: "ws = fns (control (snd (callAll req
                  (map (Pair (Key req)) (fns (control c) (Key req))) c))) (- 1)"
  shows "map fst calls = take (length calls) (fns (control c) (Key req) @ ws) \<and>
         (\<not> handled r \<longrightarrow> map fst calls = fns (control c) (Key req) @ ws)"
proof (cases "dom (control c) = {}")
  case True
  with T have "r = (None, None, False)" "calls = []" by (simp_all add: tryControl_empty)
  moreover from True have "fns (control c) (Key req) = []" "fns (control c) (- 1) = []"
    by (simp_all add: fns_empty)
  ultimately show ?thesis unfolding W by simp
next
  case False
  let ?keyFns = "fns (control c) (Key req)"
  obtain r1 c1 calls1 where L1:
    "rangeFns (Key req) req ?keyFns ?keyFns 0 (None, None, False) c = (r1, c1, calls1)"
    by (cases "rangeFns (Key req) req ?keyFns ?keyFns 0 (None, None, False) c") auto
  have nh: "\<not> handled (None, None, False)" by simp
  from rangeFns_prefix [OF L1 nh] obtain n
    where n: "n \<le> length ?keyFns" "map fst calls1 = take n ?keyFns" by blast
  have len1: "length calls1 = n" using arg_cong [OF n(2), of length] n(1) by simp
  show ?thesis
  proof (cases "handled r1")
    case True
    from tryControl_first [OF False L1 True] T
    have eq: "r = r1" "c' = c1" "calls = calls1" by simp_all
    have "map fst calls = take (length calls) (?keyFns @ ws)"
      unfolding eq len1 using n by simp
    with True show ?thesis by (simp add: eq)
  next
    case nh1: False
    let ?anyFns = "fns (control c1) (- 1)"
    obtain r2 c2 calls2 where L2:
      "rangeFns (- 1) req ?anyFns ?anyFns 0 r1 c1 = (r2, c2, calls2)"
      by (cases "rangeFns (- 1) req ?anyFns ?anyFns 0 r1 c1") auto
    from tryControl_second [OF False L1 nh1 L2] T
    have eq: "r = r2" "c' = c2" "calls = calls1 @ calls2" by simp_all
    have m1: "map fst calls1 = ?keyFns" by (rule rangeFns_all [OF L1 nh nh1])
    have l1: "length calls1 = length ?keyFns" using arg_cong [OF m1, of length] by simp
    from rangeFns_callAll [OF L1] nh1
    have "c1 = snd (callAll req (map (Pair (Key req)) (map fst calls1)) c)" by blast
    then have ws: "ws = ?anyFns" unfolding W m1 by simp
    from rangeFns_prefix [OF L2 nh1] obtain n2
      where n2: "n2 \<le> length ?anyFns" "map fst calls2 = take n2 ?anyFns" by blast
    have len2: "length calls2 = n2" using arg_cong [OF n2(2), of length] n2(1) by simp
    have a: "map fst calls = take (length calls) (?keyFns @ ws)"
      unfolding eq ws using m1 n2(2) by (simp add: l1 len2)
    have b: "\<not> handled r \<longrightarrow> map fst calls = ?keyFns @ ws"
    proof
      assume "\<not> handled r"
      then have "\<not> handled r2" by (simp add: eq)
      from rangeFns_all [OF L2 nh1 this] have "map fst calls2 = ?anyFns" .
      with m1 show "map fst calls = ?keyFns @ ws" unfolding eq ws by simp
    qed
    from a b show ?thesis by (rule conjI)
  qed
qed

text \<open>
  C3. \<open>tryControl\<close> calls the functions of the list of the request's key in the order
  of the list, then those of the wildcard list in the order of the list, and stops at
  the first call that reports handled. With \<open>ws\<close> the wildcard list after the calls
  of all the functions of the key's list (it begins with the wildcard list as it was
  before the request; the loop over it starts only when none of them handled the
  request), the functions called are the first ones of the key's list followed by
  \<open>ws\<close>, all of them when no call handled the request; a call that reports handled
  is the last call, so when a function of the key's list handles the request no
  wildcard function is called; the result is handled exactly when the last call is.
  \<open>ControlKey\<close> and \<open>Control\<close> register at the end of their list, so the order of a
  list is the order of registration.

  The record of the calls is what was run: with \<open>rs\<close> the results and \<open>cl\<close> the
  cluster that \<open>callControl\<close> gives when it is applied to the recorded functions one
  after the other, the flag of each entry is the \<open>handled\<close> its function returned,
  each result is what the body of the function returned on the state left by the calls
  before it, the result of \<open>tryControl\<close> is that of the last call (the initial nil
  result when no call was made), and the cluster afterwards is \<open>cl\<close>, but for the
  registry when a call handled the request: no other function ran.
\<close>

theorem tryControl_specific_then_wildcard:
  assumes T: "tryControl req c = (r, c', calls)"
    and W: "ws = fns (control (snd (callAll req
                  (map (Pair (Key req)) (fns (control c) (Key req))) c))) (- 1)"
    and A: "callAll req (chain req c calls) c = (rs, cl)"
  shows "map fst calls = take (length calls) (fns (control c) (Key req) @ ws) \<and>
         (\<not> handled r \<longrightarrow> map fst calls = fns (control c) (Key req) @ ws) \<and>
         (\<exists>extra. ws = fns (control c) (- 1) @ extra) \<and>
         (\<forall>j < length calls. snd (calls ! j) \<longrightarrow> Suc j = length calls) \<and>
         (handled r \<longleftrightarrow> calls \<noteq> [] \<and> snd (last calls)) \<and>
         (\<forall>j < length calls. j < length (fns (control c) (Key req)) \<and> snd (calls ! j) \<longrightarrow>
            map fst calls = take (Suc j) (fns (control c) (Key req))) \<and>
         fns (control (ControlKey key fn c)) key = fns (control c) key @ [fn] \<and>
         fns (control (Control fn c)) (- 1) = fns (control c) (- 1) @ [fn] \<and>
         map snd calls = map handled rs \<and>
         (\<forall>j < length calls.
            rs ! j = snd (snd (body (fst (calls ! j))
                                 (env (snd (callAll req (take j (chain req c calls)) c))) req))) \<and>
         r = (if calls = [] then (None, None, False) else last rs) \<and>
         c'\<lparr>control := control cl\<rparr> = cl \<and>
         (\<not> handled r \<longrightarrow> c' = cl)"
proof -
  let ?keyFns = "fns (control c) (Key req)"
  from tryControl_calls [OF T] obtain extra n where
    bl: "\<forall>x \<in> set (butlast calls). \<not> snd x"
    and d: "handled r \<longleftrightarrow> calls \<noteq> [] \<and> snd (last calls)"
    by blast
  note ex = tryControl_exact [OF T W]
  from ex have p1: "map fst calls = take (length calls) (?keyFns @ ws)" by (elim conjE)
  from ex have p1b: "\<not> handled r \<longrightarrow> map fst calls = ?keyFns @ ws" by (elim conjE)
  have p1c: "\<exists>extra. ws = fns (control c) (- 1) @ extra"
    unfolding W by (rule callAll_fns)
  have p2: "\<forall>j < length calls. snd (calls ! j) \<longrightarrow> Suc j = length calls"
    using handled_is_last [OF bl] by blast
  have p4: "\<forall>j < length calls. j < length ?keyFns \<and> snd (calls ! j) \<longrightarrow>
            map fst calls = take (Suc j) ?keyFns"
  proof (intro allI impI)
    fix j assume j: "j < length calls" and h: "j < length ?keyFns \<and> snd (calls ! j)"
    from h have "snd (calls ! j)" by simp
    from handled_is_last [OF bl j this] have len: "length calls = Suc j" by simp
    from p1 have "map fst calls = take (Suc j) (?keyFns @ ws)" by (simp only: len)
    also have "\<dots> = take (Suc j) ?keyFns" using h by simp
    finally show "map fst calls = take (Suc j) ?keyFns" .
  qed
  from A have rs: "fst (callAll req (chain req c calls) c) = rs"
    and cl: "snd (callAll req (chain req c calls) c) = cl" by simp_all
  note ca = tryControl_callAll [OF T, unfolded rs cl]
  from ca have q1: "map snd calls = map handled rs" by (elim conjE)
  from ca have q3: "r = (if calls = [] then (None, None, False) else last rs)" by (elim conjE)
  from ca have q4: "c'\<lparr>control := control cl\<rparr> = cl" by (elim conjE)
  from ca have q5: "\<not> handled r \<longrightarrow> c' = cl" by (elim conjE)
  have q2: "\<forall>j < length calls.
            rs ! j = snd (snd (body (fst (calls ! j))
                                 (env (snd (callAll req (take j (chain req c calls)) c))) req))"
    using tryControl_entry [of _ calls req c] unfolding rs by blast
  show ?thesis
    apply (rule conjI, rule p1)
    apply (rule conjI, rule p1b)
    apply (rule conjI, rule p1c)
    apply (rule conjI, rule p2)
    apply (rule conjI, rule d)
    apply (rule conjI, rule p4)
    apply (rule conjI, rule ControlKey_appends)
    apply (rule conjI, rule Control_appends)
    apply (rule conjI, rule q1)
    apply (rule conjI, rule q2)
    apply (rule conjI, rule q3)
    apply (rule conjI, rule q4)
    apply (rule q5)
    done
qed

theorem tryControl_specific_then_wildcard_witness:
  "fns (control three_fns) 3 = [pass, once] \<and> fns (control three_fns) (- 1) = [keeper] \<and>
   snd (snd (tryControl (Request 3 0) three_fns)) = [(pass, False), (once, True)] \<and>
   chain (Request 3 0) three_fns [(pass, False), (once, True)] = [(3, pass), (3, once)] \<and>
   fst (callAll (Request 3 0) [(3, pass), (3, once)] three_fns) =
     [(None, None, False), (Some (Response 8), None, True)] \<and>
   fst (tryControl (Request 3 0) three_fns) = (Some (Response 8), None, True) \<and>
   map fst (snd (snd (tryControl (Request 3 0) three_fns))) = take 2 (fns (control three_fns) 3) \<and>
   snd (snd (tryControl (Request 3 0) wild)) = [(pass, False), (keeper, True)] \<and>
   chain (Request 3 0) wild [(pass, False), (keeper, True)] = [(3, pass), (- 1, keeper)] \<and>
   fst (tryControl (Request 3 0) wild) = (Some (Response 7), None, True)"
proof -
  let ?T = "tryControl (Request 3 0) three_fns"
  let ?A = "callAll (Request 3 0) (chain (Request 3 0) three_fns (snd (snd ?T))) three_fns"
  have T: "?T = (fst ?T, fst (snd ?T), snd (snd ?T))" by simp
  have A: "?A = (fst ?A, snd ?A)" by simp
  have k: "fns (control three_fns) 3 = [pass, once]"
    by (simp add: three_fns_def reg_defs)
  have w: "fns (control three_fns) (- 1) = [keeper]"
    by (simp add: three_fns_def reg_defs)
  have ev: "snd (snd ?T) = [(pass, False), (once, True)]"
    by (simp add: three_fns_def reg_defs)
  have ch: "chain (Request 3 0) three_fns [(pass, False), (once, True)] = [(3, pass), (3, once)]"
    by (simp add: chain_def k)
  have rs: "fst (callAll (Request 3 0) [(3, pass), (3, once)] three_fns) =
     [(None, None, False), (Some (Response 8), None, True)]"
    by (simp add: three_fns_def reg_defs)
  note t = tryControl_specific_then_wildcard [OF T refl A, where key = 3 and fn = once]
  from t have "fst ?T = (if snd (snd ?T) = [] then (None, None, False) else last (fst ?A))"
    by (elim conjE)
  with ev ch rs have r: "fst ?T = (Some (Response 8), None, True)" by simp
  from t have "\<forall>j < length (snd (snd ?T)).
       j < length (fns (control three_fns) (Key (Request 3 0))) \<and> snd (snd (snd ?T) ! j) \<longrightarrow>
            map fst (snd (snd ?T)) = take (Suc j) (fns (control three_fns) (Key (Request 3 0)))"
    by (elim conjE)
  from this [rule_format, of 1] ev k
  have p: "map fst (snd (snd ?T)) = take 2 (fns (control three_fns) 3)" by simp
  let ?U = "tryControl (Request 3 0) wild"
  let ?B = "callAll (Request 3 0) (chain (Request 3 0) wild (snd (snd ?U))) wild"
  have U: "?U = (fst ?U, fst (snd ?U), snd (snd ?U))" by simp
  have B: "?B = (fst ?B, snd ?B)" by simp
  have ev2: "snd (snd ?U) = [(pass, False), (keeper, True)]"
    by (simp add: wild_def reg_defs)
  have k2: "fns (control wild) 3 = [pass]" by (simp add: wild_def reg_defs)
  have ch2: "chain (Request 3 0) wild [(pass, False), (keeper, True)] = [(3, pass), (- 1, keeper)]"
    by (simp add: chain_def k2)
  have rs2: "fst (callAll (Request 3 0) [(3, pass), (- 1, keeper)] wild) =
     [(None, None, False), (Some (Response 7), None, True)]"
    by (simp add: wild_def reg_defs)
  note u = tryControl_specific_then_wildcard [OF U refl B, where key = 3 and fn = once]
  from u have "fst ?U = (if snd (snd ?U) = [] then (None, None, False) else last (fst ?B))"
    by (elim conjE)
  with ev2 ch2 rs2 have r2: "fst ?U = (Some (Response 7), None, True)" by simp
  from k w ev ch rs r p ev2 ch2 r2 show ?thesis by simp
qed



lemma rangeFns_handled_entry:
  assumes R: "rangeFns key req keyFns keyFns 0 r c = (r', c', calls)"
    and nh: "\<not> handled r" and h: "handled r'"
  shows "calls \<noteq> [] \<and> length calls - 1 < length keyFns \<and>
         last calls = (keyFns ! (length calls - 1), True) \<and>
         control c' key =
           Some (take (length calls - 1) keyFns @ drop (Suc (length calls - 1)) keyFns)"
proof -
  from rangeFns_handled_list [OF R nh h]
  have ne: "calls \<noteq> []"
    and ctl: "control c' key = Some (take (0 + length calls - 1) keyFns @ drop (0 + length calls) keyFns)"
    by simp_all
  from rangeFns_prefix [OF R nh] obtain n
    where n: "n \<le> length keyFns" "map fst calls = take n keyFns" by blast
  from n have len: "length calls = n" by (metis length_map length_take min.absorb2)
  from ne len have pos: "0 < n" by auto
  with n(1) have j: "length calls - 1 < length keyFns" by (simp add: len)
  have "fst (last calls) = last (map fst calls)" using ne by (simp add: last_map)
  also have "\<dots> = last (take n keyFns)" by (simp add: n(2))
  also have "\<dots> = take n keyFns ! (length (take n keyFns) - 1)"
    using pos n(1) by (intro last_conv_nth) auto
  also have "\<dots> = take n keyFns ! (n - 1)" using n(1) by simp
  also have "\<dots> = keyFns ! (n - 1)" using pos by simp
  finally have f: "fst (last calls) = keyFns ! (length calls - 1)" by (simp add: len)
  from rangeFns_last [OF R nh] h have "snd (last calls)" by simp
  with f have l: "last calls = (keyFns ! (length calls - 1), True)"
    by (simp add: prod_eq_iff)
  from ne have "Suc (length calls - 1) = length calls" by (cases calls) simp_all
  with ctl have "control c' key =
           Some (take (length calls - 1) keyFns @ drop (Suc (length calls - 1)) keyFns)"
    by simp
  with ne j l show ?thesis by simp
qed









lemma tryControl_overwrites:
  assumes T: "tryControl req c = (r, c', calls)" and h: "handled r"
  shows "\<exists>k L j.
           (k = Key req \<and> L = fns (control c) k \<or>
            k = - 1 \<and> (\<exists>extra. L = fns (control c) (- 1) @ extra)) \<and>
           j < length L \<and> last calls = (L ! j, True) \<and>
           fns (control c') k = take j L @ drop (Suc j) L"
proof (cases "dom (control c) = {}")
  case True
  with T have "r = (None, None, False)" by (simp add: tryControl_empty)
  with h have False by simp
  then show ?thesis ..
next
  case False
  let ?keyFns = "fns (control c) (Key req)"
  obtain r1 c1 calls1 where L1:
    "rangeFns (Key req) req ?keyFns ?keyFns 0 (None, None, False) c = (r1, c1, calls1)"
    by (cases "rangeFns (Key req) req ?keyFns ?keyFns 0 (None, None, False) c") auto
  have nh: "\<not> handled (None, None, False)" by simp
  show ?thesis
  proof (cases "handled r1")
    case True
    from tryControl_first [OF False L1 True] T
    have eq: "r = r1" "c' = c1" "calls = calls1" by simp_all
    let ?j = "length calls1 - 1"
    from rangeFns_handled_entry [OF L1 nh True]
    have j: "?j < length ?keyFns"
      and l: "last calls1 = (?keyFns ! ?j, True)"
      and ctl: "control c1 (Key req) = Some (take ?j ?keyFns @ drop (Suc ?j) ?keyFns)"
      by simp_all
    have a: "Key req = Key req \<and> ?keyFns = fns (control c) (Key req) \<or>
             Key req = - 1 \<and> (\<exists>extra. ?keyFns = fns (control c) (- 1) @ extra)"
      by simp
    have l': "last calls = (?keyFns ! ?j, True)" unfolding eq by (rule l)
    have p: "fns (control c') (Key req) = take ?j ?keyFns @ drop (Suc ?j) ?keyFns"
      unfolding eq using ctl by (simp add: fns_def)
    show ?thesis
      apply (rule exI [of _ "Key req"])
      apply (rule exI [of _ ?keyFns])
      apply (rule exI [of _ ?j])
      apply (intro conjI)
         apply (rule a)
        apply (rule j)
       apply (rule l')
      apply (rule p)
      done
  next
    case nh1: False
    let ?anyFns = "fns (control c1) (- 1)"
    obtain r2 c2 calls2 where L2:
      "rangeFns (- 1) req ?anyFns ?anyFns 0 r1 c1 = (r2, c2, calls2)"
      by (cases "rangeFns (- 1) req ?anyFns ?anyFns 0 r1 c1") auto
    from tryControl_second [OF False L1 nh1 L2] T
    have eq: "r = r2" "c' = c2" "calls = calls1 @ calls2" by simp_all
    from h eq have h2: "handled r2" by simp
    let ?j = "length calls2 - 1"
    from rangeFns_handled_entry [OF L2 nh1 h2]
    have ne: "calls2 \<noteq> []" and j: "?j < length ?anyFns"
      and l: "last calls2 = (?anyFns ! ?j, True)"
      and ctl: "control c2 (- 1) = Some (take ?j ?anyFns @ drop (Suc ?j) ?anyFns)"
      by simp_all
    from rangeFns_unhandled_fns [OF L1 nh1, of "- 1"] obtain extra
      where extra: "?anyFns = fns (control c) (- 1) @ extra" by blast
    have l': "last calls = (?anyFns ! ?j, True)" unfolding eq using ne l by simp
    have p: "fns (control c') (- 1) = take ?j ?anyFns @ drop (Suc ?j) ?anyFns"
      unfolding eq using ctl by (simp add: fns_def)
    show ?thesis
      apply (rule exI [of _ "- 1"])
      apply (rule exI [of _ ?anyFns])
      apply (rule exI [of _ ?j])
      apply (intro conjI)
         apply (rule disjI2)
         apply (rule conjI)
          apply (rule refl)
         apply (rule exI [of _ extra])
         apply (rule extra)
        apply (rule j)
       apply (rule l')
      apply (rule p)
      done
  qed
qed

text \<open>
  C1 does not hold of this code. \<open>callControl\<close> appends the function that called
  \<open>KeepControl\<close> and reported handled to the list of its key, and then \<open>tryControl\<close>
  stores \<open>append(keyFns[:i], keyFns[i+1:]...)\<close> for that key, computed from the slice
  it read before the loop (\<open>tryControl_overwrites\<close>, for every registry and request):
  the appended entry is gone. With \<open>keeper\<close> registered for key 3, a metadata request
  is handled by it and leaves the list of key 3 empty, so that the next metadata
  request is offered to no function; the same holds for the wildcard list.
\<close>

theorem KeepControl_lost:
  "fst (tryControl (kreq metaReq) (ControlKey 3 keeper fresh3)) = (Some (Response 7), None, True) \<and>
   snd (snd (tryControl (kreq metaReq) (ControlKey 3 keeper fresh3))) = [(keeper, True)] \<and>
   fns (control (fst (snd (tryControl (kreq metaReq) (ControlKey 3 keeper fresh3))))) 3 = [] \<and>
   tryControl (kreq metaReq) (fst (snd (tryControl (kreq metaReq) (ControlKey 3 keeper fresh3)))) =
     ((None, None, False), fst (snd (tryControl (kreq metaReq) (ControlKey 3 keeper fresh3))), []) \<and>
   fns (control (fst (snd (tryControl (kreq metaReq) (Control keeper fresh3))))) (- 1) = []"
  by (simp add: reg_defs)









subsection \<open>The event loop\<close>

lemma tryControl_frame:
  assumes T: "tryControl req c = (r, c', calls)"
  shows "watch c' = watch c \<and> tps c' = tps c \<and> bs c' = bs c \<and> brokers c' = brokers c \<and>
         nalloc c' = nalloc c \<and> nbrokers c' = nbrokers c"
proof (cases "dom (control c) = {}")
  case True
  with T show ?thesis by (simp add: tryControl_empty)
next
  case False
  let ?keyFns = "fns (control c) (Key req)"
  obtain r1 c1 calls1 where L1:
    "rangeFns (Key req) req ?keyFns ?keyFns 0 (None, None, False) c = (r1, c1, calls1)"
    by (cases "rangeFns (Key req) req ?keyFns ?keyFns 0 (None, None, False) c") auto
  note f1 = rangeFns_frame [OF L1]
  show ?thesis
  proof (cases "handled r1")
    case True
    from tryControl_first [OF False L1 True] T have "c' = c1" by simp
    with f1 show ?thesis by simp
  next
    case nh1: False
    let ?anyFns = "fns (control c1) (- 1)"
    obtain r2 c2 calls2 where L2:
      "rangeFns (- 1) req ?anyFns ?anyFns 0 r1 c1 = (r2, c2, calls2)"
      by (cases "rangeFns (- 1) req ?anyFns ?anyFns 0 r1 c1") auto
    from tryControl_second [OF False L1 nh1 L2] T have "c' = c2" by simp
    with f1 rangeFns_frame [OF L2] show ?thesis by simp
  qed
qed

lemma dispatch_cleaned:
  assumes hk: "handlers_keep_cleaned handlers"
    and D: "dispatch handlers rq w c = (re, c2)"
    and cl: "cleaned (watch c x)"
  shows "cleaned (watch c2 x)"
proof -
  obtain r c1 calls where T: "tryControl (kreq rq) c = (r, c1, calls)"
    by (cases "tryControl (kreq rq) c") auto
  from tryControl_frame [OF T] cl have cl1: "cleaned (watch c1 x)" by simp
  show ?thesis
  proof (cases "handled r")
    case True
    with D T have "c2 = c1" by (simp add: dispatch_def)
    with cl1 show ?thesis by simp
  next
    case False
    show ?thesis
    proof (cases "handlers (Key (kreq rq))")
      case None
      with False D T have "c2 = c1" by (simp add: dispatch_def)
      with cl1 show ?thesis by simp
    next
      case (Some h)
      with False D T have c2: "c2 = snd (h c1 rq w)" by (simp add: dispatch_def)
      from hk Some have "keeps_cleaned (\<lambda>c. snd (h c rq w))"
        unfolding handlers_keep_cleaned_def by blast
      with cl1 show ?thesis unfolding c2 keeps_cleaned_def by blast
    qed
  qed
qed

lemma serve_cluster:
  "\<exists>re c2 q. dispatch handlers rq w (cluster s) = (re, c2) \<and>
       (serve handlers die rq w s = Continue (s\<lparr>cluster := c2, respCh := q\<rparr>) \<or>
        serve handlers die rq w s = Return (s\<lparr>cluster := c2, respCh := q\<rparr>))"
proof -
  obtain re c2 where D: "dispatch handlers rq w (cluster s) = (re, c2)"
    by (cases "dispatch handlers rq w (cluster s)") auto
  have "serve handlers die rq w s = Continue (s\<lparr>cluster := c2, respCh := respCh s\<rparr>) \<or>
        serve handlers die rq w s = Return (s\<lparr>cluster := c2, respCh := respCh s\<rparr>) \<or>
        serve handlers die rq w s = Continue (s\<lparr>cluster := c2, respCh := (respCh s)
           (cc rq := respCh s (cc rq) @ [\<lparr>kresp = fst re, rcorr = corr rq, err = snd re\<rparr>])\<rparr>)"
    using D by (simp add: serve_def)
  with D show ?thesis by blast
qed

lemma serve_cleaned:
  assumes hk: "handlers_keep_cleaned handlers" and cl: "cleaned (watch (cluster s) x)"
  shows "cleaned (watch (cluster (state_of (serve handlers die rq w s))) x)"
proof -
  from serve_cluster [of handlers rq w s die] obtain re c2 q
    where D: "dispatch handlers rq w (cluster s) = (re, c2)"
      and S: "serve handlers die rq w s = Continue (s\<lparr>cluster := c2, respCh := q\<rparr>) \<or>
              serve handlers die rq w s = Return (s\<lparr>cluster := c2, respCh := q\<rparr>)"
    by blast
  from dispatch_cleaned [OF hk D cl] have "cleaned (watch c2 x)" .
  with S show ?thesis by (auto simp: state_of_def)
qed


lemma run_Cons:
  "snd (run handlers ((it, die) # rest) s) =
     served it s @ (case run_iter handlers die it s of
                      Return s' \<Rightarrow> []
                    | Continue s' \<Rightarrow> snd (run handlers rest s'))"
  by (simp split: step.splits prod.splits)

lemma run_iter_cleaned:
  assumes hk: "handlers_keep_cleaned handlers" and ak: "admin_keeps_cleaned it"
    and cl: "cleaned (watch (cluster s) x)"
  shows "cleaned (watch (cluster (state_of (run_iter handlers die it s))) x)"
proof (cases it)
  case (ReqItem rq)
  with serve_cleaned [OF hk cl, of die rq None] show ?thesis by (simp add: run_iter_def)
next
  case (WatchItem w)
  show ?thesis
  proof (cases "cleaned (watch (cluster s) w)")
    case True
    with WatchItem cl show ?thesis by (simp add: run_iter_def state_of_def)
  next
    case False
    let ?s1 = "s\<lparr>cluster := cleanup w (cluster s)\<rparr>"
    from cl have "cleaned (watch (cluster ?s1) x)" by (simp add: cleanup_def)
    from serve_cleaned [OF hk this, of die "creq (watch (cleanup w (cluster s)) w)" "Some w"]
    show ?thesis using WatchItem False by (simp add: run_iter_def Let_def)
  qed
next
  case DieItem
  with cl show ?thesis by (simp add: run_iter_def state_of_def)
next
  case (AdminItem f)
  with ak have "keeps_cleaned f" by simp
  with cl have "cleaned (watch (f (cluster s)) x)" unfolding keeps_cleaned_def by blast
  with AdminItem show ?thesis by (simp add: run_iter_def state_of_def)
qed

lemma run_iter_marks:
  assumes hk: "handlers_keep_cleaned handlers"
  shows "cleaned (watch (cluster (state_of (run_iter handlers die (WatchItem w) s))) w)"
proof (cases "cleaned (watch (cluster s) w)")
  case True
  then show ?thesis by (simp add: run_iter_def state_of_def)
next
  case False
  let ?s1 = "s\<lparr>cluster := cleanup w (cluster s)\<rparr>"
  have "cleaned (watch (cluster ?s1) w)" by (simp add: cleanup_def)
  from serve_cleaned [OF hk this, of die "creq (watch (cleanup w (cluster s)) w)" "Some w"]
  show ?thesis using False by (simp add: run_iter_def Let_def)
qed

lemma run_cleaned_none:
  assumes hk: "handlers_keep_cleaned handlers"
    and ak: "\<forall>x \<in> set items. admin_keeps_cleaned (fst x)"
    and cl: "cleaned (watch (cluster s) w)"
  shows "w \<notin> set (snd (run handlers items s))"
  using ak cl
proof (induction items arbitrary: s)
  case Nil
  then show ?case by simp
next
  case (Cons a items)
  obtain it die where a: "a = (it, die)" by (cases a) auto
  from Cons.prems(1) a have ak1: "admin_keeps_cleaned it"
    and ak2: "\<forall>x \<in> set items. admin_keeps_cleaned (fst x)" by simp_all
  have sv: "w \<notin> set (served it s)"
    using Cons.prems(2) by (cases it) (auto simp: served_def)
  note nx = run_iter_cleaned [OF hk ak1 Cons.prems(2), of die]
  show ?case
  proof (cases "run_iter handlers die it s")
    case (Return s')
    with sv show ?thesis by (simp add: a run_Cons del: run.simps)
  next
    case (Continue s')
    with nx have "cleaned (watch (cluster s') w)" by (simp add: state_of_def)
    from Cons.IH [OF ak2 this] sv Continue show ?thesis
      by (simp add: a run_Cons del: run.simps)
  qed
qed

lemma run_once:
  assumes hk: "handlers_keep_cleaned handlers"
    and ak: "\<forall>x \<in> set items. admin_keeps_cleaned (fst x)"
  shows "count_list (snd (run handlers items s)) w \<le> 1"
  using ak
proof (induction items arbitrary: s)
  case Nil
  then show ?case by simp
next
  case (Cons a items)
  obtain it die where a: "a = (it, die)" by (cases a) auto
  from Cons.prems a have ak1: "admin_keeps_cleaned it"
    and ak2: "\<forall>x \<in> set items. admin_keeps_cleaned (fst x)" by simp_all
  show ?case
  proof (cases "served it s = [w]")
    case True
    then have it: "it = WatchItem w"
      by (cases it) (simp_all add: served_def split: if_splits)
    show ?thesis
    proof (cases "run_iter handlers die it s")
      case (Return s')
      with True show ?thesis by (simp add: a run_Cons del: run.simps)
    next
      case (Continue s')
      with run_iter_marks [OF hk, of die w s] it
      have "cleaned (watch (cluster s') w)" by (simp add: state_of_def)
      from run_cleaned_none [OF hk ak2 this]
      have "count_list (snd (run handlers items s')) w = 0" by (simp add: count_list_0_iff)
      with True Continue show ?thesis by (simp add: a run_Cons del: run.simps)
    qed
  next
    case False
    then have z: "count_list (served it s) w = 0"
      by (cases it) (auto simp: served_def split: if_splits)
    show ?thesis
    proof (cases "run_iter handlers die it s")
      case (Return s')
      with z show ?thesis by (simp add: a run_Cons del: run.simps)
    next
      case (Continue s')
      with Cons.IH [OF ak2, of s'] z show ?thesis
        by (simp add: a run_Cons del: run.simps)
    qed
  qed
qed



text \<open>
  C8. A deferred-fetch wake-up whose flag \<open>cleaned\<close> is set is discarded: the
  iteration goes on with the loop state as it was, whatever the handlers and the
  registry are, so no control function or handler ran and nothing was enqueued.
  Therefore, over any sequence of items the loop receives, the request of a deferred
  fetch is served at most once, and never if the fetch was already cleaned, provided
  the handlers and the administrative closures never clear the flag (\<open>cleanup\<close>, which
  sets it, is modelled from the spec).
\<close>

theorem cleaned_fetch_discarded:
  "(cleaned (watch (cluster s) w) \<longrightarrow> run_iter handlers die (WatchItem w) s = Continue s) \<and>
   (handlers_keep_cleaned handlers \<and> (\<forall>x \<in> set items. admin_keeps_cleaned (fst x)) \<longrightarrow>
      count_list (snd (run handlers items s)) w \<le> 1 \<and>
      (cleaned (watch (cluster s) w) \<longrightarrow> w \<notin> set (snd (run handlers items s))))"
proof (intro conjI impI)
  assume "cleaned (watch (cluster s) w)"
  then show "run_iter handlers die (WatchItem w) s = Continue s"
    by (simp add: run_iter_def)
next
  assume h: "handlers_keep_cleaned handlers \<and> (\<forall>x \<in> set items. admin_keeps_cleaned (fst x))"
  then show "count_list (snd (run handlers items s)) w \<le> 1"
    using run_once [of handlers items s w] by blast
next
  assume h: "handlers_keep_cleaned handlers \<and> (\<forall>x \<in> set items. admin_keeps_cleaned (fst x))"
    and cl: "cleaned (watch (cluster s) w)"
  then show "w \<notin> set (snd (run handlers items s))"
    using run_cleaned_none [of handlers items s w] by blast
qed

theorem cleaned_fetch_discarded_witness:
  "handlers_keep_cleaned fetch_only \<and>
   admin_keeps_cleaned (WatchItem 5 :: unit item) \<and>
   snd (run fetch_only [(WatchItem 5, False), (WatchItem 5, False)] parked) = [5] \<and>
   count_list (snd (run fetch_only [(WatchItem 5, False), (WatchItem 5, False)] parked)) 5 \<le> 1 \<and>
   respCh (fst (run fetch_only [(WatchItem 5, False)] parked)) 7 =
     [\<lparr>kresp = Some (Response 0), rcorr = 12, err = None\<rparr>] \<and>
   cleaned (watch (cluster (fst (run fetch_only [(WatchItem 5, False)] parked))) 5) \<and>
   run_iter fetch_only False (WatchItem 5) (fst (run fetch_only [(WatchItem 5, False)] parked)) =
     Continue (fst (run fetch_only [(WatchItem 5, False)] parked))"
proof -
  let ?s1 = "fst (run fetch_only [(WatchItem 5, False)] parked)"
  have hk: "handlers_keep_cleaned fetch_only"
    by (auto simp: handlers_keep_cleaned_def fetch_only_def keeps_cleaned_def split: if_splits)
  have ak: "\<forall>x \<in> set [(WatchItem 5, False), (WatchItem 5, False)].
              admin_keeps_cleaned (fst x :: unit item)"
    by simp
  have one: "run_iter fetch_only False (WatchItem 5) parked =
      Continue (parked\<lparr>cluster := cleanup 5 (cluster parked),
                       respCh := (respCh parked)
                         (7 := [\<lparr>kresp = Some (Response 0), rcorr = 12, err = None\<rparr>])\<rparr>)"
    by (simp add: run_iter_def serve_def dispatch_def parked_def fetch_only_def cleanup_def
        no_watch_def reg_defs)
  have s1: "?s1 = parked\<lparr>cluster := cleanup 5 (cluster parked),
                       respCh := (respCh parked)
                         (7 := [\<lparr>kresp = Some (Response 0), rcorr = 12, err = None\<rparr>])\<rparr>"
    by (simp add: one)
  have cl: "cleaned (watch (cluster ?s1) 5)"
    unfolding s1 by (simp add: cleanup_def)
  have q: "respCh ?s1 7 = [\<lparr>kresp = Some (Response 0), rcorr = 12, err = None\<rparr>]"
    unfolding s1 by simp
  have sv: "served (WatchItem 5) parked = [5]"
    by (simp add: served_def parked_def no_watch_def)
  from cleaned_fetch_discarded [of ?s1 5 fetch_only False "[]"] cl
  have two: "run_iter fetch_only False (WatchItem 5) ?s1 = Continue ?s1" by blast
  have sv2: "served (WatchItem 5) ?s1 = ([] :: nat list)"
    using cl by (simp add: served_def)
  have ws: "snd (run fetch_only [(WatchItem 5, False), (WatchItem 5, False)] parked) = [5]"
    using one two sv sv2 s1 by (simp add: run_Cons del: run.simps(2))
  from cleaned_fetch_discarded [of parked 5 fetch_only False
      "[(WatchItem 5, False), (WatchItem 5, False)]"] hk ak
  have "count_list (snd (run fetch_only [(WatchItem 5, False), (WatchItem 5, False)] parked)) 5 \<le> 1"
    by blast
  with hk ws q cl two show ?thesis by simp
qed


text \<open>
  C9, as amended. When the result of a request is a nil response and a nil error, the
  iteration enqueues nothing and goes on. For every other result, the response, the
  error and the request's correlation number are enqueued at the end of the response
  queue of the request's connection, unless the delivery takes the shutdown signal:
  then nothing is enqueued and the loop returns. A client request and the request of
  a deferred fetch that is not cleaned go through the same steps.
\<close>

theorem reply_enqueued_unless_nil_or_shutdown:
  assumes D: "dispatch handlers rq w (cluster s) = ((resp, e), c2)"
  shows "(resp = None \<and> e = None \<longrightarrow>
            serve handlers die rq w s = Continue (s\<lparr>cluster := c2\<rparr>)) \<and>
         (\<not> (resp = None \<and> e = None) \<and> \<not> die \<longrightarrow>
            serve handlers die rq w s =
              Continue (s\<lparr>cluster := c2,
                          respCh := (respCh s)
                            (cc rq := respCh s (cc rq) @
                               [\<lparr>kresp = resp, rcorr = corr rq, err = e\<rparr>])\<rparr>)) \<and>
         (\<not> (resp = None \<and> e = None) \<and> die \<longrightarrow>
            serve handlers die rq w s = Return (s\<lparr>cluster := c2\<rparr>)) \<and>
         run_iter handlers die (ReqItem rq) s = serve handlers die rq None s \<and>
         (\<not> cleaned (watch (cluster s) x) \<longrightarrow>
            run_iter handlers die (WatchItem x) s =
              serve handlers die (creq (watch (cleanup x (cluster s)) x)) (Some x)
                (s\<lparr>cluster := cleanup x (cluster s)\<rparr>))"
  using D by (simp add: serve_def run_iter_def Let_def)


theorem reply_enqueued_unless_nil_or_shutdown_witness:
  "respCh (state_of (run_iter no_handlers False (ReqItem metaReq)
                       (idle\<lparr>cluster := ControlKey 3 silent fresh3\<rparr>))) 7 = [] \<and>
   respCh (state_of (run_iter no_handlers False (ReqItem metaReq)
                       (idle\<lparr>cluster := ControlKey 3 once fresh3\<rparr>))) 7 =
     [\<lparr>kresp = Some (Response 8), rcorr = 11, err = None\<rparr>] \<and>
   run_iter no_handlers True (ReqItem metaReq) (idle\<lparr>cluster := ControlKey 3 once fresh3\<rparr>) =
     Return (idle\<lparr>cluster := snd (dispatch no_handlers metaReq None (ControlKey 3 once fresh3))\<rparr>)"
proof -
  let ?sa = "idle\<lparr>cluster := ControlKey 3 silent fresh3\<rparr>"
  let ?sb = "idle\<lparr>cluster := ControlKey 3 once fresh3\<rparr>"
  let ?ca = "snd (dispatch no_handlers metaReq None (ControlKey 3 silent fresh3))"
  let ?cb = "snd (dispatch no_handlers metaReq None (ControlKey 3 once fresh3))"
  have fa: "fst (dispatch no_handlers metaReq None (ControlKey 3 silent fresh3)) = (None, None)"
    by (simp add: dispatch_def reg_defs)
  have fb: "fst (dispatch no_handlers metaReq None (ControlKey 3 once fresh3))
            = (Some (Response 8), None)"
    by (simp add: dispatch_def reg_defs)
  have Da: "dispatch no_handlers metaReq None (cluster ?sa) = ((None, None), ?ca)"
    using fa by (simp add: prod_eq_iff)
  have Db: "dispatch no_handlers metaReq None (cluster ?sb) = ((Some (Response 8), None), ?cb)"
    using fb by (simp add: prod_eq_iff)
  from reply_enqueued_unless_nil_or_shutdown [OF Da, of False]
  have a: "run_iter no_handlers False (ReqItem metaReq) ?sa = Continue (?sa\<lparr>cluster := ?ca\<rparr>)"
    by simp
  from reply_enqueued_unless_nil_or_shutdown [OF Db, of False]
  have b: "run_iter no_handlers False (ReqItem metaReq) ?sb =
           Continue (?sb\<lparr>cluster := ?cb,
                         respCh := (respCh ?sb)
                           (cc metaReq := respCh ?sb (cc metaReq) @
                              [\<lparr>kresp = Some (Response 8), rcorr = corr metaReq, err = None\<rparr>])\<rparr>)"
    by simp
  from reply_enqueued_unless_nil_or_shutdown [OF Db, of True]
  have c: "run_iter no_handlers True (ReqItem metaReq) ?sb = Return (?sb\<lparr>cluster := ?cb\<rparr>)"
    by simp
  have "respCh (state_of (run_iter no_handlers False (ReqItem metaReq) ?sa)) 7 = []"
    unfolding a by (simp add: state_of_def idle_def)
  moreover have "respCh (state_of (run_iter no_handlers False (ReqItem metaReq) ?sb)) 7 =
     [\<lparr>kresp = Some (Response 8), rcorr = 11, err = None\<rparr>]"
    unfolding b by (simp add: state_of_def idle_def metaReq_def)
  moreover have "run_iter no_handlers True (ReqItem metaReq) ?sb = Return (idle\<lparr>cluster := ?cb\<rparr>)"
    unfolding c by simp
  ultimately show ?thesis by simp
qed

text \<open>
  C9 as stated fails when the delivery takes the shutdown signal: the result of a
  metadata request without handler is an error, not nil, and nothing is enqueued.
\<close>

theorem reply_abandoned_on_shutdown:
  "dispatch no_handlers metaReq None (cluster idle) = ((None, Some (UnhandledKey 3)), fresh3) \<and>
   run_iter no_handlers True (ReqItem metaReq) idle = Return idle \<and>
   respCh idle (cc metaReq) = []"
  by (simp add: run_iter_def serve_def dispatch_def idle_def no_handlers_def reg_defs)



end
